theory Spec2Isabelle
  imports Main "HOL-Library.Word"
begin

unbundle bit_operations_syntax

section \<open>RecordDB: a keyed record store in one flat file\<close>

text \<open>
  A shallow embedding of \<^verbatim>\<open>RecordDB<T>\<close> (file \<^verbatim>\<open>RecordDB.h\<close>, built with
  \<^verbatim>\<open>RECORDDB_ENABLE_CRC 1\<close>). The class reads and writes \<^verbatim>\<open>Record\<close> objects as raw
  bytes (\<^verbatim>\<open>(uint8_t*)&rec\<close>), so a record is modelled as its byte image, and the payload
  type \<^verbatim>\<open>T\<close> by the size of its byte image.
\<close>

subsection \<open>Bytes, C strings and the record layout\<close>

type_synonym u8 = "8 word"
type_synonym bytes = "u8 list"

text \<open>
  An object of class \<^verbatim>\<open>RecordDB<T>\<close>: the member \<^verbatim>\<open>dbPath\<close>, and what the template
  argument fixes about \<^verbatim>\<open>struct Record { char key[32]; T data; uint8_t crc; }\<close>:
  \<^verbatim>\<open>sizeof(T)\<close>, and the number of padding bytes the compiler puts after \<^verbatim>\<open>crc\<close> to
  round \<^verbatim>\<open>sizeof(Record)\<close> up to the alignment of \<^verbatim>\<open>T\<close> (none for a \<^verbatim>\<open>T\<close> of
  alignment 1, three for a four-byte aligned \<^verbatim>\<open>T\<close> whose size is a multiple of four).
\<close>

record recorddb =
  dbPath :: string
  tsize :: nat
  tail_pad :: nat

definition key_size :: nat where
  "key_size = 32"

definition crc_off :: "recorddb \<Rightarrow> nat" where
  \<comment> \<open>the offset of the member \<^verbatim>\<open>crc\<close>\<close>
  "crc_off D = key_size + tsize D"

definition sizeof_Record :: "recorddb \<Rightarrow> nat" where
  "sizeof_Record D = crc_off D + 1 + tail_pad D"

text \<open>
  A \<^verbatim>\<open>const char*\<close> is \<open>None\<close> when null, and otherwise the bytes it points to; the C
  string it denotes ends before the first zero byte.
\<close>

definition cstr :: "bytes \<Rightarrow> bytes" where
  "cstr p = takeWhile (\<lambda>b. b \<noteq> 0) p"

definition strlen :: "bytes \<Rightarrow> nat" where
  "strlen p = length (cstr p)"

definition streq :: "bytes \<Rightarrow> bytes \<Rightarrow> bool" where
  \<comment> \<open>\<^verbatim>\<open>strcmp(a, b) == 0\<close>\<close>
  "streq a b = (cstr a = cstr b)"

definition strlcpy :: "bytes \<Rightarrow> bytes \<Rightarrow> nat \<Rightarrow> bytes" where
  \<comment> \<open>\<^verbatim>\<open>strlcpy(dst, src, n)\<close>: at most \<open>n - 1\<close> characters and a terminator\<close>
  "strlcpy dst src n =
     (if n = 0 then dst
      else let m = min (strlen src) (n - 1)
           in take m (cstr src) @ [0] @ drop (Suc m) dst)"

text \<open>
  The members of a record buffer. The class uses \<^verbatim>\<open>rec.key\<close> as a pointer only
  (\<^verbatim>\<open>strcmp(rec.key, key)\<close>, \<^verbatim>\<open>callback(rec.key, rec.data)\<close>), and nothing bounds a read
  from it at 32 bytes: \<^verbatim>\<open>key\<close> is the first member, so the bytes that follow the pointer
  are those of the whole buffer, and a key member without terminator is read on into the
  payload, the checksum and the padding. A buffer without any zero byte makes the C code
  read past the buffer; the model's string ends with the buffer, and \<open>reads_in_record\<close>
  below says that no comparison of a scan gets that far.
\<close>

definition rec_key :: "bytes \<Rightarrow> bytes" where
  \<comment> \<open>the pointer \<^verbatim>\<open>rec.key\<close>: the bytes of the buffer from offset 0 on\<close>
  "rec_key r = r"

definition rec_data :: "recorddb \<Rightarrow> bytes \<Rightarrow> bytes" where
  "rec_data D r = take (tsize D) (drop key_size r)"

definition rec_crc :: "recorddb \<Rightarrow> bytes \<Rightarrow> u8" where
  "rec_crc D r = r ! crc_off D"

subsection \<open>computeCRC\<close>

definition crc_shift :: "u8 \<Rightarrow> u8" where
  \<comment> \<open>\<^verbatim>\<open>crc = (crc & 0x80) ? (crc << 1) ^ 0x07 : (crc << 1)\<close>\<close>
  "crc_shift crc = (if crc AND 0x80 \<noteq> 0 then push_bit 1 crc XOR 0x07 else push_bit 1 crc)"

function crc_inner :: "nat \<Rightarrow> u8 \<Rightarrow> u8" where
  \<comment> \<open>\<^verbatim>\<open>for (int j = 0; j < 8; j++)\<close>, entered with \<open>j\<close>\<close>
  "crc_inner j crc = (if j < 8 then crc_inner (j + 1) (crc_shift crc) else crc)"
  by pat_completeness auto
termination
  by (relation "measure (\<lambda>(j, crc). 8 - j)") auto

function crc_outer :: "bytes \<Rightarrow> nat \<Rightarrow> nat \<Rightarrow> u8 \<Rightarrow> u8" where
  \<comment> \<open>\<^verbatim>\<open>for (size_t i = 0; i < len; i++)\<close>, entered with \<open>i\<close>\<close>
  "crc_outer p len i crc =
     (if i < len then crc_outer p len (i + 1) (crc_inner 0 (crc XOR p ! i)) else crc)"
  by pat_completeness auto
termination
  by (relation "measure (\<lambda>(p, len, i, crc). len - i)") auto

definition computeCRC :: "recorddb \<Rightarrow> bytes \<Rightarrow> u8" where
  "computeCRC D r = crc_outer r (sizeof_Record D - 1) 0 0"

subsection \<open>The filesystem\<close>

text \<open>
  SPIFFS is a collaborator outside the class. It is modelled as a flash that never
  refuses: a file opens for reading iff it exists, opening for writing truncates or
  creates, opening for appending creates when absent, and a write transfers every byte.
  The branches of the source that handle a refusal are kept. Every call on the
  \<^verbatim>\<open>SPIFFS\<close> object is logged, so that "no I/O" can be stated. A handle open for reading
  is the bytes not read yet; a handle open for writing is the path it writes to.
\<close>

datatype fmode = ModeR | ModeW | ModeA

datatype fs_call = FsOpen string fmode | FsRemove string | FsRename string string

record spiffs =
  files :: "string \<rightharpoonup> bytes"
  calls :: "fs_call list"

definition open_r :: "string \<Rightarrow> spiffs \<Rightarrow> bytes option \<times> spiffs" where
  "open_r p s = (files s p, s\<lparr>calls := calls s @ [FsOpen p ModeR]\<rparr>)"

definition open_w :: "string \<Rightarrow> spiffs \<Rightarrow> string option \<times> spiffs" where
  "open_w p s = (Some p, s\<lparr>files := (files s)(p \<mapsto> []), calls := calls s @ [FsOpen p ModeW]\<rparr>)"

definition open_a :: "string \<Rightarrow> spiffs \<Rightarrow> string option \<times> spiffs" where
  "open_a p s =
     (Some p,
      s\<lparr>files := (case files s p of None \<Rightarrow> (files s)(p \<mapsto> []) | Some c \<Rightarrow> files s),
        calls := calls s @ [FsOpen p ModeA]\<rparr>)"

definition file_read :: "nat \<Rightarrow> bytes \<Rightarrow> bytes \<times> bytes" where
  \<comment> \<open>the bytes read (fewer than asked at the end of the file) and the handle afterwards\<close>
  "file_read n h = (take n h, drop n h)"

definition file_write :: "string \<Rightarrow> bytes \<Rightarrow> spiffs \<Rightarrow> nat \<times> spiffs" where
  "file_write h bs s =
     (length bs,
      s\<lparr>files := (files s)(h \<mapsto> (case files s h of None \<Rightarrow> [] | Some c \<Rightarrow> c) @ bs)\<rparr>)"

definition fs_remove :: "string \<Rightarrow> spiffs \<Rightarrow> spiffs" where
  "fs_remove p s = s\<lparr>files := (files s)(p := None), calls := calls s @ [FsRemove p]\<rparr>"

definition fs_rename :: "string \<Rightarrow> string \<Rightarrow> spiffs \<Rightarrow> spiffs" where
  "fs_rename a b s =
     s\<lparr>files := (case files s a of None \<Rightarrow> files s
                 | Some c \<Rightarrow> ((files s)(b \<mapsto> c))(a := None)),
       calls := calls s @ [FsRename a b]\<rparr>"

definition temp_db :: string where
  "temp_db = ''/temp.db''"

subsection \<open>The operations\<close>

function query_loop :: "recorddb \<Rightarrow> bytes \<Rightarrow> bytes \<Rightarrow> bytes option" where
  "query_loop D key h =
     (let r = fst (file_read (sizeof_Record D) h); h' = snd (file_read (sizeof_Record D) h)
      in if length r = sizeof_Record D
         then (if computeCRC D r \<noteq> rec_crc D r then query_loop D key h'
               else if streq (rec_key r) key then Some (rec_data D r)
               else query_loop D key h')
         else None)"
  by pat_completeness auto
termination
  by (relation "measure (\<lambda>(D, key, h). length h)")
     (auto simp: file_read_def sizeof_Record_def)

definition query :: "recorddb \<Rightarrow> bytes option \<Rightarrow> spiffs \<Rightarrow> bytes option \<times> spiffs" where
  \<comment> \<open>\<open>Some data\<close> is the result true with \<^verbatim>\<open>data\<close> assigned, \<open>None\<close> the result false\<close>
  "query D key s =
     (case key of None \<Rightarrow> (None, s)
      | Some k \<Rightarrow>
          (case open_r (dbPath D) s of
             (None, s1) \<Rightarrow> (None, s1)
           | (Some h, s1) \<Rightarrow> (query_loop D k h, s1)))"

definition exists_db :: "recorddb \<Rightarrow> bytes option \<Rightarrow> spiffs \<Rightarrow> bool \<times> spiffs" where
  "exists_db D key s = (case query D key s of (res, s1) \<Rightarrow> (res \<noteq> None, s1))"

function remove_loop :: "recorddb \<Rightarrow> bytes \<Rightarrow> string \<Rightarrow> bytes \<Rightarrow> bool \<times> spiffs \<Rightarrow> bool \<times> spiffs" where
  "remove_loop D key dst h (found, s) =
     (let r = fst (file_read (sizeof_Record D) h); h' = snd (file_read (sizeof_Record D) h)
      in if length r = sizeof_Record D
         then (if computeCRC D r \<noteq> rec_crc D r then remove_loop D key dst h' (found, s)
               else if \<not> streq (rec_key r) key
               then remove_loop D key dst h' (found, snd (file_write dst r s))
               else remove_loop D key dst h' (True, s))
         else (found, s))"
  by pat_completeness auto
termination
  by (relation "measure (\<lambda>(D, key, dst, h, fs). length h)")
     (auto simp: file_read_def sizeof_Record_def)

definition remove_db :: "recorddb \<Rightarrow> bytes option \<Rightarrow> spiffs \<Rightarrow> bool \<times> spiffs" where
  "remove_db D key s =
     (case key of None \<Rightarrow> (False, s)
      | Some k \<Rightarrow>
          (case open_r (dbPath D) s of
             (None, s1) \<Rightarrow> (False, s1)
           | (Some src, s1) \<Rightarrow>
               (case open_w temp_db s1 of
                  (None, s2) \<Rightarrow> (False, s2)
                | (Some dst, s2) \<Rightarrow>
                    (case remove_loop D k dst src (False, s2) of
                       (found, s3) \<Rightarrow>
                         if found
                         then (found, fs_rename temp_db (dbPath D) (fs_remove (dbPath D) s3))
                         else (found, fs_remove temp_db s3)))))"

definition make_record :: "recorddb \<Rightarrow> bytes \<Rightarrow> bytes \<Rightarrow> bytes" where
  \<comment> \<open>\<^verbatim>\<open>memset\<close>, \<^verbatim>\<open>strlcpy(rec.key, key, 32)\<close>, \<^verbatim>\<open>rec.data = data\<close>,
      \<^verbatim>\<open>rec.crc = computeCRC(&rec)\<close>\<close>
  "make_record D key data =
     (let r0 = replicate (sizeof_Record D) 0;
          r1 = strlcpy r0 key key_size;
          r2 = take key_size r1 @ data @ drop (key_size + tsize D) r1
      in r2[crc_off D := computeCRC D r2])"

definition insert_db :: "recorddb \<Rightarrow> bytes option \<Rightarrow> bytes \<Rightarrow> spiffs \<Rightarrow> bool \<times> spiffs" where
  "insert_db D key data s =
     (case key of None \<Rightarrow> (False, s)
      | Some k \<Rightarrow>
          if strlen k \<ge> key_size then (False, s)
          else (case remove_db D key s of
                  (removed, s1) \<Rightarrow>
                    (case open_a (dbPath D) s1 of
                       (None, s2) \<Rightarrow> (False, s2)
                     | (Some file, s2) \<Rightarrow>
                         (case file_write file (make_record D k data) s2 of
                            (n, s3) \<Rightarrow> (n = sizeof_Record D, s3)))))"

function count_loop :: "recorddb \<Rightarrow> bytes \<Rightarrow> nat \<Rightarrow> nat" where
  "count_loop D h n =
     (let r = fst (file_read (sizeof_Record D) h); h' = snd (file_read (sizeof_Record D) h)
      in if length r = sizeof_Record D
         then (if computeCRC D r \<noteq> rec_crc D r then count_loop D h' n
               else count_loop D h' (n + 1))
         else n)"
  by pat_completeness auto
termination
  by (relation "measure (\<lambda>(D, h, n). length h)")
     (auto simp: file_read_def sizeof_Record_def)

definition count_db :: "recorddb \<Rightarrow> spiffs \<Rightarrow> nat \<times> spiffs" where
  "count_db D s =
     (case open_r (dbPath D) s of
        (None, s1) \<Rightarrow> (0, s1)
      | (Some h, s1) \<Rightarrow> (count_loop D h 0, s1))"

text \<open>
  The callback of \<^verbatim>\<open>selectAll\<close> is a function of the pointer \<^verbatim>\<open>rec.key\<close>, the data,
  and whatever the callback keeps between its calls.
\<close>

function selectAll_loop :: "recorddb \<Rightarrow> (bytes \<Rightarrow> bytes \<Rightarrow> 'v \<Rightarrow> 'v) \<Rightarrow> bytes \<Rightarrow> 'v \<Rightarrow> 'v" where
  "selectAll_loop D callback h v =
     (let r = fst (file_read (sizeof_Record D) h); h' = snd (file_read (sizeof_Record D) h)
      in if length r = sizeof_Record D
         then (if computeCRC D r \<noteq> rec_crc D r then selectAll_loop D callback h' v
               else selectAll_loop D callback h' (callback (rec_key r) (rec_data D r) v))
         else v)"
  by pat_completeness auto
termination
  by (relation "measure (\<lambda>(D, callback, h, v). length h)")
     (auto simp: file_read_def sizeof_Record_def)

definition selectAll :: "recorddb \<Rightarrow> (bytes \<Rightarrow> bytes \<Rightarrow> 'v \<Rightarrow> 'v) \<Rightarrow> 'v \<Rightarrow> spiffs \<Rightarrow> 'v \<times> spiffs" where
  "selectAll D callback v s =
     (case open_r (dbPath D) s of
        (None, s1) \<Rightarrow> (v, s1)
      | (Some h, s1) \<Rightarrow> (selectAll_loop D callback h v, s1))"

definition clear :: "recorddb \<Rightarrow> spiffs \<Rightarrow> spiffs" where
  "clear D s = fs_remove (dbPath D) s"

declare crc_outer.simps [simp del] query_loop.simps [simp del] remove_loop.simps [simp del]
  count_loop.simps [simp del] selectAll_loop.simps [simp del]

subsection \<open>The file as a sequence of slots\<close>

text \<open>
  The vocabulary of the specification: a file is a sequence of slots of the size of a
  record, a slot is live when its checksum matches, and the remaining bytes of a file
  whose length is no multiple of the record size belong to no slot.
\<close>

function slots :: "nat \<Rightarrow> bytes \<Rightarrow> bytes list" where
  "slots n h = (if n = 0 \<or> length h < n then [] else take n h # slots n (drop n h))"
  by pat_completeness auto
termination
  by (relation "measure (\<lambda>(n, h). length h)") auto

declare slots.simps [simp del]

definition valid :: "recorddb \<Rightarrow> bytes \<Rightarrow> bool" where
  "valid D r = (computeCRC D r = rec_crc D r)"

definition live_records :: "recorddb \<Rightarrow> bytes \<Rightarrow> bytes list" where
  "live_records D h = filter (valid D) (slots (sizeof_Record D) h)"

definition live :: "recorddb \<Rightarrow> spiffs \<Rightarrow> bytes list" where
  \<comment> \<open>the live records of the database file, in file order; none when there is no file\<close>
  "live D s = (case files s (dbPath D) of None \<Rightarrow> [] | Some h \<Rightarrow> live_records D h)"

definition matches :: "bytes \<Rightarrow> bytes \<Rightarrow> bool" where
  "matches k = (\<lambda>r. streq (rec_key r) k)"

definition has_live :: "recorddb \<Rightarrow> bytes option \<Rightarrow> spiffs \<Rightarrow> bool" where
  "has_live D key s = (case key of None \<Rightarrow> False | Some k \<Rightarrow> list_ex (matches k) (live D s))"

definition entry :: "recorddb \<Rightarrow> bytes \<Rightarrow> bytes \<times> bytes" where
  \<comment> \<open>the key (the C string at \<^verbatim>\<open>rec.key\<close>) and the value of a record\<close>
  "entry D r = (cstr (rec_key r), rec_data D r)"

definition visit :: "recorddb \<Rightarrow> (bytes \<Rightarrow> bytes \<Rightarrow> 'v \<Rightarrow> 'v) \<Rightarrow> bytes \<Rightarrow> 'v \<Rightarrow> 'v" where
  "visit D callback = (\<lambda>r. callback (rec_key r) (rec_data D r))"

definition log_visit :: "bytes \<Rightarrow> bytes \<Rightarrow> (bytes \<times> bytes) list \<Rightarrow> (bytes \<times> bytes) list" where
  \<comment> \<open>a callback that records its calls in order: the C string at the pointer, and the data\<close>
  "log_visit p d l = l @ [(cstr p, d)]"

definition with_file :: "recorddb \<Rightarrow> bytes \<Rightarrow> spiffs \<Rightarrow> spiffs" where
  \<comment> \<open>the filesystem with the database file set to the given bytes\<close>
  "with_file D h s = s\<lparr>files := (files s)(dbPath D \<mapsto> h)\<rparr>"

definition reads_in_record :: "recorddb \<Rightarrow> bytes option \<Rightarrow> spiffs \<Rightarrow> bool" where
  \<comment> \<open>every \<^verbatim>\<open>strcmp(rec.key, key)\<close> of a scan ends inside the record buffer: the key is
      shorter than a record, or every live record holds a zero byte\<close>
  "reads_in_record D key s =
     (case key of None \<Rightarrow> True
      | Some k \<Rightarrow> strlen k < sizeof_Record D \<or> list_all (\<lambda>r. 0 \<in> set r) (live D s))"

definition whole_slots :: "recorddb \<Rightarrow> spiffs \<Rightarrow> bool" where
  \<comment> \<open>the length of the file is a multiple of the record size\<close>
  "whole_slots D s =
     (case files s (dbPath D) of None \<Rightarrow> True | Some h \<Rightarrow> sizeof_Record D dvd length h)"

definition unique_keys :: "recorddb \<Rightarrow> spiffs \<Rightarrow> bool" where
  \<comment> \<open>no two live records have the same key\<close>
  "unique_keys D s = distinct (map (\<lambda>r. cstr (rec_key r)) (live D s))"

definition store_inv :: "recorddb \<Rightarrow> spiffs \<Rightarrow> bool" where
  \<comment> \<open>the invariants of the data model\<close>
  "store_inv D s = (whole_slots D s \<and> unique_keys D s)"

subsection \<open>CRC-8 as the specification words it\<close>

text \<open>
  Polynomial \<open>x\<^sup>8 + x\<^sup>2 + x + 1\<close>, initial value 0, the message taken bit by bit, the most
  significant bit of each byte first: each message bit is compared with the bit that
  leaves the register, and the polynomial is added when they differ.
\<close>

definition crc8_bit :: "bool \<Rightarrow> u8 \<Rightarrow> u8" where
  "crc8_bit m c = (if bit c 7 \<noteq> m then push_bit 1 c XOR 0x07 else push_bit 1 c)"

definition msb_bits :: "u8 \<Rightarrow> bool list" where
  "msb_bits b = map (bit b) (rev [0..<8])"

definition crc8_spec :: "bytes \<Rightarrow> u8" where
  "crc8_spec bs = fold crc8_bit (concat (map msb_bits bs)) 0"

subsection \<open>Sequences of calls\<close>

datatype op =
    Insert "bytes option" bytes
  | Remove "bytes option"
  | Query "bytes option"
  | Exists "bytes option"
  | Count
  | SelectAll
  | Clear

record tally =
  inserts_ok :: nat
  inserts_fresh :: nat
  removes_ok :: nat
  store :: spiffs

text \<open>
  Running a sequence of calls while counting the inserts that returned true, those of
  them whose key had no live record when they were called, and the removes that
  returned true. \<^verbatim>\<open>clear()\<close> starts the count again.
\<close>

fun step :: "recorddb \<Rightarrow> op \<Rightarrow> tally \<Rightarrow> tally" where
  "step D (Insert key data) t =
     (let res = insert_db D key data (store t)
      in t\<lparr>inserts_ok := inserts_ok t + (if fst res then 1 else 0),
           inserts_fresh :=
             inserts_fresh t + (if fst res \<and> \<not> has_live D key (store t) then 1 else 0),
           store := snd res\<rparr>)"
| "step D (Remove key) t =
     (let res = remove_db D key (store t)
      in t\<lparr>removes_ok := removes_ok t + (if fst res then 1 else 0), store := snd res\<rparr>)"
| "step D (Query key) t = t\<lparr>store := snd (query D key (store t))\<rparr>"
| "step D (Exists key) t = t\<lparr>store := snd (exists_db D key (store t))\<rparr>"
| "step D Count t = t\<lparr>store := snd (count_db D (store t))\<rparr>"
| "step D SelectAll t = t\<lparr>store := snd (selectAll D log_visit [] (store t))\<rparr>"
| "step D Clear t =
     \<lparr>inserts_ok = 0, inserts_fresh = 0, removes_ok = 0, store = clear D (store t)\<rparr>"

definition run :: "recorddb \<Rightarrow> op list \<Rightarrow> tally \<Rightarrow> tally" where
  "run D ops t = fold (step D) ops t"

definition fresh :: "spiffs \<Rightarrow> tally" where
  "fresh s = \<lparr>inserts_ok = 0, inserts_fresh = 0, removes_ok = 0, store = s\<rparr>"

fun typed :: "recorddb \<Rightarrow> op \<Rightarrow> bool" where
  \<comment> \<open>the value of an insert is an object of type \<^verbatim>\<open>T\<close>\<close>
  "typed D (Insert key data) = (length data = tsize D)"
| "typed D other = True"

text \<open>The states a store reaches from a filesystem that has no database file.\<close>

inductive reachable :: "recorddb \<Rightarrow> spiffs \<Rightarrow> bool" for D :: recorddb where
  unused: "files s (dbPath D) = None \<Longrightarrow> reachable D s"
| call: "reachable D s \<Longrightarrow> typed D c \<Longrightarrow> reachable D (store (step D c (fresh s)))"

subsection \<open>Auxiliary notions of the proofs\<close>

definition poly_if :: "bool \<Rightarrow> u8" where
  "poly_if t = (if t then 0x07 else 0)"

definition top_if :: "bool \<Rightarrow> u8" where
  "top_if t = (if t then 0x80 else 0)"

definition shl1 :: "u8 \<Rightarrow> u8" where
  "shl1 c = push_bit 1 c"

definition crc_byte :: "u8 \<Rightarrow> u8 \<Rightarrow> u8" where
  \<comment> \<open>one round of the outer loop of \<open>computeCRC\<close>\<close>
  "crc_byte = (\<lambda>b c. crc_inner 0 (c XOR b))"

definition appended :: "string \<Rightarrow> bytes \<Rightarrow> spiffs \<Rightarrow> spiffs" where
  "appended p bs s =
     s\<lparr>files := (files s)(p \<mapsto> (case files s p of None \<Rightarrow> [] | Some c \<Rightarrow> c) @ bs)\<rparr>"

definition balanced :: "recorddb \<Rightarrow> tally \<Rightarrow> bool" where
  \<comment> \<open>the invariant of a run: the live records are the fresh inserts not yet removed\<close>
  "balanced D t =
     (store_inv D (store t) \<and> length (live D (store t)) + removes_ok t = inserts_fresh t)"

definition key_field :: "bytes \<Rightarrow> bytes" where
  \<comment> \<open>the member \<^verbatim>\<open>key\<close> after \<^verbatim>\<open>memset\<close> and \<^verbatim>\<open>strlcpy\<close>\<close>
  "key_field k = take (min (strlen k) 31) (cstr k) @ replicate (32 - min (strlen k) 31) 0"

subsection \<open>Two instances\<close>

text \<open>
  \<^verbatim>\<open>RecordDB<uint8_t>\<close>, whose record has no padding, and \<^verbatim>\<open>RecordDB<uint32_t>\<close> on a
  target that aligns \<^verbatim>\<open>uint32_t\<close> to four bytes (the ESP targets of SPIFFS do): there
  \<^verbatim>\<open>sizeof(Record)\<close> is 40, \<^verbatim>\<open>crc\<close> is at offset 36, and three padding bytes follow.
\<close>

definition db_u8 :: recorddb where
  "db_u8 = \<lparr>dbPath = ''/db'', tsize = 1, tail_pad = 0\<rparr>"

definition db_u32 :: recorddb where
  "db_u32 = \<lparr>dbPath = ''/db'', tsize = 4, tail_pad = 3\<rparr>"

definition no_files :: spiffs where
  "no_files = \<lparr>files = Map.empty, calls = []\<rparr>"

definition key_a :: bytes where
  "key_a = [0x61]"

definition key_b :: bytes where
  "key_b = [0x62]"

definition store_ab :: spiffs where
  \<comment> \<open>the store after \<^verbatim>\<open>insert("a", 1)\<close> and \<^verbatim>\<open>insert("b", 2)\<close>\<close>
  "store_ab =
     snd (insert_db db_u8 (Some key_b) [2] (snd (insert_db db_u8 (Some key_a) [1] no_files)))"

definition store_aba :: spiffs where
  \<comment> \<open>a file with two live records of the key a\<close>
  "store_aba =
     with_file db_u8
       (make_record db_u8 key_a [1] @ make_record db_u8 key_b [3] @ make_record db_u8 key_a [2])
       no_files"

definition store_u32_a :: spiffs where
  \<comment> \<open>\<^verbatim>\<open>RecordDB<uint32_t>\<close> after \<^verbatim>\<open>insert("a", 131)\<close>\<close>
  "store_u32_a = snd (insert_db db_u32 (Some key_a) [131, 0, 0, 0] no_files)"

definition store_u32_ab :: spiffs where
  \<comment> \<open>and after \<^verbatim>\<open>insert("b", 143)\<close>\<close>
  "store_u32_ab = snd (insert_db db_u32 (Some key_b) [143, 0, 0, 0] store_u32_a)"

declare crc_inner.simps [simp del]

section \<open>The checksum\<close>

subsection \<open>The shift step\<close>

lemma top_bit: "(c :: u8) AND 0x80 \<noteq> 0 \<longleftrightarrow> bit c 7"
  using and_exp_eq_0_iff_not_bit[of c 7] by simp

lemma seven_mask: "(7 :: u8) = mask 3"
  by (simp add: mask_eq_exp_minus_1)

lemma crc_shift_alt: "crc_shift c = shl1 c XOR poly_if (bit c 7)"
  by (simp only: crc_shift_def top_bit poly_if_def shl1_def) simp

lemma bit_poly_if: "bit (poly_if t) n \<longleftrightarrow> t \<and> n < 3"
  by (auto simp: poly_if_def seven_mask bit_simps)

lemma bit_shl1: "bit (shl1 c) n \<longleftrightarrow> 0 < n \<and> n < 8 \<and> bit c (n - 1)"
  unfolding shl1_def by (simp only: bit_push_bit_iff) (auto simp: possible_bit_word)

lemma shl1_xor: "shl1 (a XOR b) = shl1 a XOR shl1 b"
  by (simp only: shl1_def push_bit_xor)

lemma xor_cancel_right: "(x :: u8) XOR m = y XOR m \<Longrightarrow> x = y"
proof -
  assume "x XOR m = y XOR m"
  then have "(x XOR m) XOR m = (y XOR m) XOR m" by simp
  then show "x = y" by (simp add: xor.assoc)
qed

lemma bit_crc_shift_0: "bit (crc_shift c) 0 = bit c 7"
  by (simp add: crc_shift_alt bit_xor_iff bit_shl1 bit_poly_if)

lemma crc_shift_xor: "crc_shift (a XOR b) = crc_shift a XOR crc_shift b"
proof -
  have "poly_if (bit (a XOR b) 7) = poly_if (bit a 7) XOR poly_if (bit b 7)"
    by (auto simp: poly_if_def bit_xor_iff)
  then show ?thesis
    by (simp add: crc_shift_alt shl1_xor ac_simps)
qed

lemma crc_shift_inj: "crc_shift a = crc_shift b \<Longrightarrow> a = b"
proof -
  assume eq: "crc_shift a = crc_shift b"
  then have top: "bit a 7 = bit b 7"
    using bit_crc_shift_0[of a] bit_crc_shift_0[of b] by simp
  with eq have e: "shl1 a = shl1 b"
    by (auto simp: crc_shift_alt dest: xor_cancel_right)
  have low: "bit a n = bit b n" if "n < 7" for n
  proof -
    have "bit (shl1 a) (Suc n) = bit a n" "bit (shl1 b) (Suc n) = bit b n"
      using that by (simp_all add: bit_shl1)
    with e show ?thesis by simp
  qed
  show "a = b"
  proof (rule bit_word_eqI)
    fix n assume "n < LENGTH(8)"
    then have "n < 7 \<or> n = 7" by auto
    then show "bit a n = bit b n" using low top by auto
  qed
qed

lemma crc_inner_unroll: "crc_inner 0 c = (crc_shift ^^ 8) c"
  by (simp add: crc_inner.simps numeral_eq_Suc funpow_swap1)

lemma funpow_inj:
  fixes f :: "'a \<Rightarrow> 'a"
  assumes "\<And>a b. f a = f b \<Longrightarrow> a = b"
  shows "(f ^^ n) a = (f ^^ n) b \<Longrightarrow> a = b"
proof (induction n)
  case 0
  then show ?case by simp
next
  case (Suc n)
  from Suc.prems have "f ((f ^^ n) a) = f ((f ^^ n) b)" by simp
  then have "(f ^^ n) a = (f ^^ n) b" by (rule assms)
  then show ?case by (rule Suc.IH)
qed

lemma crc_inner_inj: "crc_inner 0 a = crc_inner 0 b \<Longrightarrow> a = b"
  unfolding crc_inner_unroll by (rule funpow_inj[of crc_shift 8]) (rule crc_shift_inj)

lemma crc_byte_inj_state: "crc_byte b c = crc_byte b c' \<Longrightarrow> c = c'"
  unfolding crc_byte_def by (auto dest!: crc_inner_inj xor_cancel_right)

lemma crc_byte_inj_byte: "crc_byte b c = crc_byte b' c \<Longrightarrow> b = b'"
proof -
  assume "crc_byte b c = crc_byte b' c"
  then have "c XOR b = c XOR b'"
    unfolding crc_byte_def by (rule crc_inner_inj)
  then have "b XOR c = b' XOR c" by (simp add: xor.commute)
  then show ?thesis by (rule xor_cancel_right)
qed

subsection \<open>The outer loop as a fold\<close>

lemma crc_outer_fold:
  "len \<le> length p \<Longrightarrow> i \<le> len \<Longrightarrow>
   crc_outer p len i c = fold crc_byte (take (len - i) (drop i p)) c"
proof (induction p len i c rule: crc_outer.induct)
  case (1 p len i crc)
  show ?case
  proof (cases "i < len")
    case True
    then have "take (len - i) (drop i p) = p ! i # take (len - Suc i) (drop (Suc i) p)"
      using 1(2) by (metis Cons_nth_drop_Suc Suc_diff_Suc less_le_trans take_Suc_Cons)
    then show ?thesis
      using True 1 by (subst crc_outer.simps) (simp add: crc_byte_def)
  next
    case False
    then show ?thesis
      using 1(3) by (subst crc_outer.simps) simp
  qed
qed

lemma computeCRC_fold:
  "sizeof_Record D - 1 \<le> length r \<Longrightarrow>
   computeCRC D r = fold crc_byte (take (sizeof_Record D - 1) r) 0"
  by (simp add: computeCRC_def crc_outer_fold)

lemma fold_crc_inj_state: "fold crc_byte bs c = fold crc_byte bs c' \<Longrightarrow> c = c'"
  by (induction bs arbitrary: c c') (auto dest: crc_byte_inj_state)

lemma fold_crc_update:
  "j < length bs \<Longrightarrow> b \<noteq> bs ! j \<Longrightarrow> fold crc_byte (bs[j := b]) c \<noteq> fold crc_byte bs c"
proof (induction bs arbitrary: j c)
  case Nil
  then show ?case by simp
next
  case (Cons x xs)
  show ?case
  proof (cases j)
    case 0
    with Cons.prems show ?thesis
      by (auto dest!: fold_crc_inj_state crc_byte_inj_byte)
  next
    case (Suc n)
    with Cons show ?thesis by simp
  qed
qed

subsection \<open>Bit by bit, most significant bit first\<close>

lemma bit_top_if: "bit (top_if t) n \<longleftrightarrow> t \<and> n = 7"
proof -
  have "(0x80 :: u8) = 2 ^ 7" by simp
  then have "top_if t = (if t then 2 ^ 7 else 0)"
    by (simp only: top_if_def)
  then show ?thesis
    by (simp only: bit_exp_iff bit_0_eq possible_bit_word split: if_splits) auto
qed

lemma shl1_top_if: "shl1 (top_if t) = 0"
  by (rule bit_word_eqI) (auto simp: bit_shl1 bit_top_if)

lemma poly_if_False: "poly_if False = 0"
  by (simp add: poly_if_def)

lemma crc8_bit_alt: "crc8_bit m c = crc_shift (c XOR top_if m)"
proof -
  have "crc8_bit m c = shl1 c XOR poly_if (bit c 7 \<noteq> m)"
    by (simp only: crc8_bit_def shl1_def poly_if_def) simp
  moreover have "crc_shift (c XOR top_if m) = shl1 c XOR poly_if (bit c 7 \<noteq> m)"
    by (simp add: crc_shift_alt shl1_xor shl1_top_if bit_xor_iff bit_top_if)
  ultimately show ?thesis by simp
qed

lemma shl1_push_bit: "shl1 (push_bit k b) = push_bit (Suc k) b"
  by (simp only: shl1_def push_bit_push_bit) simp

lemma bit7_push_bit: "k < 8 \<Longrightarrow> bit (push_bit k (b :: u8)) 7 = bit b (7 - k)"
  by (simp only: bit_push_bit_iff) (auto simp: possible_bit_word)

lemma push_bit_8: "push_bit 8 (b :: u8) = 0"
  by (rule bit_word_eqI) (simp add: bit_push_bit_iff)

lemma crc_shift_low: "k < 8 \<Longrightarrow>
  crc_shift (push_bit k b XOR top_if (bit b (7 - k))) = push_bit (Suc k) b"
  by (simp add: crc_shift_alt bit_xor_iff bit7_push_bit bit_top_if poly_if_False
      shl1_xor shl1_top_if shl1_push_bit)

lemma serial_prefix:
  "k \<le> 8 \<Longrightarrow>
   fold crc8_bit (map (bit b) (rev [8 - k..<8])) c = (crc_shift ^^ k) (c XOR b) XOR push_bit k b"
proof (induction k)
  case 0
  then show ?case by (simp add: xor.assoc)
next
  case (Suc k)
  then have k: "k < 8" by simp
  then have "Suc (7 - k) = 8 - k" "8 - Suc k = 7 - k" "7 - k < 8"
    by simp_all
  then have "[8 - Suc k..<8] = (7 - k) # [8 - k..<8]"
    by (simp only: upt_conv_Cons)
  then have "fold crc8_bit (map (bit b) (rev [8 - Suc k..<8])) c =
      crc8_bit (bit b (7 - k)) (fold crc8_bit (map (bit b) (rev [8 - k..<8])) c)"
    by simp
  also have "\<dots> = crc8_bit (bit b (7 - k)) ((crc_shift ^^ k) (c XOR b) XOR push_bit k b)"
    using Suc.IH k by simp
  also have "\<dots> = crc_shift ((crc_shift ^^ k) (c XOR b))
       XOR crc_shift (push_bit k b XOR top_if (bit b (7 - k)))"
    by (simp only: crc8_bit_alt xor.assoc crc_shift_xor)
  also have "\<dots> = (crc_shift ^^ Suc k) (c XOR b) XOR push_bit (Suc k) b"
    using k by (simp only: crc_shift_low) simp
  finally show ?case .
qed

lemma serial_byte: "fold crc8_bit (msb_bits b) c = crc_byte b c"
  using serial_prefix[of 8 b c]
  by (simp add: msb_bits_def crc_byte_def crc_inner_unroll push_bit_8)

lemma serial_bytes: "fold crc8_bit (concat (map msb_bits bs)) c = fold crc_byte bs c"
  by (induction bs arbitrary: c) (simp_all add: serial_byte)

lemma crc8_spec_fold: "crc8_spec bs = fold crc_byte bs 0"
  by (simp add: crc8_spec_def serial_bytes)

text \<open>The check value of CRC-8 with these parameters, for the ASCII digits 1 to 9.\<close>

lemma crc8_spec_check: "crc8_spec [0x31, 0x32, 0x33, 0x34, 0x35, 0x36, 0x37, 0x38, 0x39] = 0xF4"
  by code_simp

subsection \<open>The record that insert builds\<close>

lemma length_key_field: "length (key_field k) = 32"
  by (simp add: key_field_def strlen_def)

lemma strlcpy_zeros:
  "strlcpy (replicate (32 + n) 0) k key_size = key_field k @ replicate n 0"
proof -
  define m where "m = min (strlen k) 31"
  have m: "m \<le> 31" by (simp add: m_def)
  have e1: "strlcpy (replicate (32 + n) 0) k key_size
      = take m (cstr k) @ ((0 :: u8) # replicate (32 + n - Suc m) 0)"
    by (simp add: strlcpy_def key_size_def Let_def m_def)
  have "Suc (32 + n - Suc m) = (32 - m) + n"
    using m by simp
  then have "(0 :: u8) # replicate (32 + n - Suc m) 0 = replicate ((32 - m) + n) 0"
    by (simp only: replicate_Suc[symmetric])
  then have e2: "(0 :: u8) # replicate (32 + n - Suc m) 0 = replicate (32 - m) 0 @ replicate n 0"
    by (simp only: replicate_add)
  show ?thesis
    by (simp only: e1 e2 key_field_def m_def[symmetric] append_assoc)
qed

lemma make_record_shape:
  assumes "length v = tsize D"
  shows "make_record D k v =
    key_field k @ v @ [fold crc_byte (key_field k @ v @ replicate (tail_pad D) 0) 0]
      @ replicate (tail_pad D) 0"
proof -
  define kf where "kf = key_field k"
  define p where "p = tail_pad D"
  have lk: "length kf = 32" by (simp add: kf_def length_key_field)
  have sz: "sizeof_Record D = 32 + (tsize D + Suc p)"
    by (simp add: sizeof_Record_def crc_off_def key_size_def p_def)
  have r1: "strlcpy (replicate (sizeof_Record D) 0) k key_size = kf @ replicate (tsize D + Suc p) 0"
    by (simp only: sz strlcpy_zeros kf_def)
  have t: "take key_size (kf @ replicate (tsize D + Suc p) 0) = kf"
    using lk by (simp add: key_size_def)
  have "replicate (tsize D + Suc p) (0 :: u8) = replicate (tsize D) 0 @ replicate (Suc p) 0"
    by (rule replicate_add)
  then have d: "drop (key_size + tsize D) (kf @ replicate (tsize D + Suc p) 0) = replicate (Suc p) 0"
    using lk by (simp only: key_size_def drop_append) simp
  define r2 where "r2 = kf @ v @ replicate (Suc p) (0 :: u8)"
  have l2: "length r2 = sizeof_Record D"
    using lk assms by (simp add: r2_def sz)
  have tr: "take p ((0 :: u8) # replicate p 0) = replicate p 0"
    by (simp only: replicate_Suc[symmetric] take_replicate) simp
  have tk: "take (sizeof_Record D - 1) r2 = kf @ v @ replicate p 0"
    using lk assms by (simp add: r2_def sz tr)
  have "computeCRC D r2 = fold crc_byte (take (sizeof_Record D - 1) r2) 0"
    using l2 by (simp only: computeCRC_fold diff_le_self)
  then have c: "computeCRC D r2 = fold crc_byte (kf @ v @ replicate p 0) 0"
    by (simp only: tk)
  have u: "r2[crc_off D := x] = kf @ v @ [x] @ replicate p 0" for x
    using lk assms by (simp add: r2_def crc_off_def key_size_def list_update_append)
  have "make_record D k v = r2[crc_off D := computeCRC D r2]"
    unfolding make_record_def Let_def r1 t d r2_def ..
  then show ?thesis
    by (simp only: u c kf_def p_def)
qed

lemma length_make_record: "length v = tsize D \<Longrightarrow> length (make_record D k v) = sizeof_Record D"
  by (simp add: make_record_shape length_key_field sizeof_Record_def crc_off_def key_size_def)

lemma cstr_key_field: "strlen k < key_size \<Longrightarrow> cstr (key_field k @ rest) = cstr k"
proof -
  assume "strlen k < key_size"
  then have m: "min (strlen k) 31 = strlen k" and pos: "32 - strlen k = Suc (31 - strlen k)"
    by (simp_all add: key_size_def)
  have nz: "\<forall>b\<in>set (cstr k). b \<noteq> 0"
    unfolding cstr_def by (auto dest: set_takeWhileD)
  have "take (strlen k) (cstr k) = cstr k"
    by (simp add: strlen_def)
  then have "key_field k = cstr k @ 0 # replicate (31 - strlen k) 0"
    by (simp add: key_field_def m pos)
  then show ?thesis
    using nz by (simp add: cstr_def[of "_ @ _"] takeWhile_append2) 
qed

lemma cstr_rec_key_make_record:
  "strlen k < key_size \<Longrightarrow> length v = tsize D \<Longrightarrow> cstr (rec_key (make_record D k v)) = cstr k"
  by (simp only: make_record_shape rec_key_def cstr_key_field)

lemma rec_data_make_record: "length v = tsize D \<Longrightarrow> rec_data D (make_record D k v) = v"
  by (simp add: make_record_shape rec_data_def key_size_def length_key_field)

lemma rec_crc_make_record:
  "length v = tsize D \<Longrightarrow>
   rec_crc D (make_record D k v) = fold crc_byte (key_field k @ v @ replicate (tail_pad D) 0) 0"
  by (simp add: make_record_shape rec_crc_def crc_off_def key_size_def length_key_field nth_append)

lemma valid_make_record:
  "length v = tsize D \<Longrightarrow> tail_pad D = 0 \<Longrightarrow> valid D (make_record D k v)"
proof -
  assume v: "length v = tsize D" and p: "tail_pad D = 0"
  have "take (sizeof_Record D - 1) (make_record D k v) = key_field k @ v"
    using v p by (simp add: make_record_shape sizeof_Record_def crc_off_def key_size_def
        length_key_field)
  then have "computeCRC D (make_record D k v) = fold crc_byte (key_field k @ v) 0"
    using v by (simp add: computeCRC_fold length_make_record)
  then show ?thesis
    using v p by (simp add: valid_def rec_crc_make_record)
qed

text \<open>
  \<open>computeCRC\<close> is the CRC-8 of the specification (polynomial 0x07, initial value 0, bit
  by bit, most significant bit first) over every byte of the record buffer except the
  last one.
\<close>

lemma computeCRC_crc8_butlast:
  "length r = sizeof_Record D \<Longrightarrow> computeCRC D r = crc8_spec (butlast r)"
  by (simp add: computeCRC_fold crc8_spec_fold butlast_conv_take)

text \<open>
  In a record without padding the last byte is the checksum byte, and \<open>computeCRC\<close>
  covers every byte but the checksum.
\<close>

lemma computeCRC_crc8_unpadded:
  assumes "tail_pad D = 0" and "length r = sizeof_Record D"
  shows "computeCRC D r = crc8_spec (take (crc_off D) r @ drop (Suc (crc_off D)) r)"
proof -
  have "sizeof_Record D - 1 = crc_off D"
    using assms(1) by (simp add: sizeof_Record_def)
  moreover have "drop (Suc (crc_off D)) r = []"
    using assms by (simp add: sizeof_Record_def)
  ultimately show ?thesis
    using assms(2) by (simp add: computeCRC_fold crc8_spec_fold)
qed

text \<open>
  The checksum that \<^verbatim>\<open>insert\<close> stores is the CRC-8 over every byte of the record except
  the checksum byte, with or without padding: the checksum byte is zero while it is
  computed, as the padding is.
\<close>

lemma stored_checksum_crc8:
  assumes "length v = tsize D"
  shows "rec_crc D (make_record D k v) =
     crc8_spec (take (crc_off D) (make_record D k v) @ drop (Suc (crc_off D)) (make_record D k v))"
proof -
  have "take (crc_off D) (make_record D k v) @ drop (Suc (crc_off D)) (make_record D k v)
      = key_field k @ v @ replicate (tail_pad D) 0"
    using assms by (simp add: make_record_shape crc_off_def key_size_def length_key_field)
  then show ?thesis
    using assms by (simp add: rec_crc_make_record crc8_spec_fold)
qed

text \<open>
  Claim C4 at \<^verbatim>\<open>RecordDB<uint32_t>\<close>, on the record that \<^verbatim>\<open>insert("a", 1)\<close> writes: the
  record has 40 bytes and the checksum byte is at offset 36. The stored checksum is 51,
  and so is the CRC-8 over every byte except the checksum byte, but \<open>computeCRC\<close> of the
  record is 111: its window of \<^verbatim>\<open>sizeof(Record) - 1\<close> bytes includes the checksum byte
  and leaves out the last padding byte.
\<close>

theorem computeCRC_window_includes_checksum:
  "sizeof_Record db_u32 = 40 \<and> crc_off db_u32 = 36 \<and>
   rec_crc db_u32 (make_record db_u32 key_a [1, 0, 0, 0]) = 51 \<and>
   crc8_spec (take (crc_off db_u32) (make_record db_u32 key_a [1, 0, 0, 0])
              @ drop (Suc (crc_off db_u32)) (make_record db_u32 key_a [1, 0, 0, 0])) = 51 \<and>
   computeCRC db_u32 (make_record db_u32 key_a [1, 0, 0, 0]) = 111"
  by code_simp

section \<open>The scans\<close>

lemma sizeof_pos: "0 < sizeof_Record D"
  by (simp add: sizeof_Record_def)

lemma live_short: "length h < sizeof_Record D \<Longrightarrow> live_records D h = []"
  by (simp add: live_records_def slots.simps[of _ h])

lemma live_step:
  "sizeof_Record D \<le> length h \<Longrightarrow>
   live_records D h =
     (if valid D (take (sizeof_Record D) h) then [take (sizeof_Record D) h] else [])
     @ live_records D (drop (sizeof_Record D) h)"
  using sizeof_pos[of D] by (simp add: live_records_def slots.simps[of _ h])

lemma count_loop_eq: "count_loop D h n = n + length (live_records D h)"
proof (induction D h n rule: count_loop.induct)
  case (1 D h n)
  show ?case
  proof (cases "sizeof_Record D \<le> length h")
    case True
    then show ?thesis
      using 1 by (subst count_loop.simps) (simp add: file_read_def live_step valid_def Let_def)
  next
    case False
    then show ?thesis
      by (subst count_loop.simps) (simp add: file_read_def live_short Let_def)
  qed
qed

lemma query_loop_eq:
  "query_loop D k h = map_option (rec_data D) (find (matches k) (live_records D h))"
proof (induction D k h rule: query_loop.induct)
  case (1 D k h)
  show ?case
  proof (cases "sizeof_Record D \<le> length h")
    case True
    then show ?thesis
      using 1 by (subst query_loop.simps) (simp add: file_read_def live_step valid_def matches_def Let_def)
  next
    case False
    then show ?thesis
      by (subst query_loop.simps) (simp add: file_read_def live_short Let_def)
  qed
qed

lemma selectAll_loop_eq:
  "selectAll_loop D callback h v = fold (visit D callback) (live_records D h) v"
proof (induction D callback h v rule: selectAll_loop.induct)
  case (1 D callback h v)
  show ?case
  proof (cases "sizeof_Record D \<le> length h")
    case True
    then show ?thesis
      using 1 by (subst selectAll_loop.simps)
        (simp add: file_read_def live_step valid_def visit_def Let_def)
  next
    case False
    then show ?thesis
      by (subst selectAll_loop.simps) (simp add: file_read_def live_short Let_def)
  qed
qed

lemma appended_Nil: "files s p = Some c \<Longrightarrow> appended p [] s = s"
  by (simp add: appended_def fun_upd_idem)

lemma appended_appended: "appended p ys (appended p xs s) = appended p (xs @ ys) s"
  by (simp add: appended_def)

lemma file_write_appended: "snd (file_write p bs s) = appended p bs s"
  by (simp add: file_write_def appended_def)

lemma remove_loop_eq:
  "files s dst \<noteq> None \<Longrightarrow>
   remove_loop D k dst h (found, s) =
     (found \<or> list_ex (matches k) (live_records D h),
      appended dst (concat (filter (\<lambda>r. \<not> matches k r) (live_records D h))) s)"
proof (induction D k dst h "(found, s)" arbitrary: found s rule: remove_loop.induct)
  case (1 D k dst h found s)
  show ?case
  proof (cases "sizeof_Record D \<le> length h")
    case True
    have a: "files (appended dst x s) dst \<noteq> None" for x
      by (simp add: appended_def)
    show ?thesis
      using True 1 a
      by (subst remove_loop.simps)
         (auto simp add: file_read_def live_step valid_def matches_def Let_def
            file_write_appended appended_appended)
  next
    case False
    then show ?thesis
      using 1(4)
      by (subst remove_loop.simps) (auto simp add: file_read_def live_short Let_def appended_Nil)
  qed
qed

section \<open>Slots\<close>

lemma slots_length: "r \<in> set (slots n h) \<Longrightarrow> length r = n"
proof (induction n h rule: slots.induct)
  case (1 n h)
  then show ?case
    by (subst (asm) (2) slots.simps) (auto split: if_splits)
qed

lemma slots_append:
  "n dvd length pre \<Longrightarrow> slots n (pre @ rest) = slots n pre @ slots n rest"
proof (induction n pre rule: slots.induct)
  case (1 n h)
  show ?case
  proof (cases "n = 0 \<or> h = []")
    case True
    then show ?thesis
      using 1(2) by (auto simp: slots.simps[of n "[]"] slots.simps[of 0])
  next
    case False
    then have n: "0 < n" and h: "h \<noteq> []" by auto
    with 1(2) have le: "n \<le> length h"
      by (auto dest: dvd_imp_le)
    then have dv: "n dvd length (drop n h)"
      using 1(2) by (simp add: dvd_diff_nat)
    have "slots n (h @ rest) = take n h # slots n (drop n h @ rest)"
      using n le by (subst slots.simps) simp
    also have "\<dots> = take n h # (slots n (drop n h) @ slots n rest)"
      using 1(1) n le dv by simp
    also have "\<dots> = slots n h @ slots n rest"
      using n le by (subst (2) slots.simps) simp
    finally show ?thesis .
  qed
qed

lemma slots_one: "0 < length r \<Longrightarrow> slots (length r) r = [r]"
  by (subst slots.simps) (simp add: slots.simps[of _ "[]"])

lemma slots_concat:
  "0 < n \<Longrightarrow> \<forall>r\<in>set rs. length r = n \<Longrightarrow> slots n (concat rs) = rs"
proof (induction rs)
  case Nil
  then show ?case by (simp add: slots.simps[of _ "[]"])
next
  case (Cons r rs)
  then have "slots n (r @ concat rs) = slots n r @ slots n (concat rs)"
    by (intro slots_append) simp
  then show ?case
    using Cons slots_one[of r] by simp
qed

lemma length_concat_slots:
  "\<forall>r\<in>set rs. length r = n \<Longrightarrow> length (concat rs) = n * length rs"
  by (induction rs) simp_all

lemma live_records_append:
  "sizeof_Record D dvd length pre \<Longrightarrow>
   live_records D (pre @ rest) = live_records D pre @ live_records D rest"
  by (simp add: live_records_def slots_append)

lemma live_records_one:
  "length r = sizeof_Record D \<Longrightarrow> live_records D r = filter (valid D) [r]"
  using slots_one[of r] sizeof_pos[of D] by (simp add: live_records_def)

lemma live_records_Nil: "live_records D [] = []"
  using sizeof_pos[of D] by (simp add: live_short)

lemma live_recordsD: "r \<in> set (live_records D h) \<Longrightarrow> length r = sizeof_Record D \<and> valid D r"
  by (auto simp: live_records_def dest: slots_length)

lemma live_records_concat:
  "set rs \<subseteq> set (live_records D h) \<Longrightarrow> live_records D (concat rs) = rs"
proof -
  assume a: "set rs \<subseteq> set (live_records D h)"
  then have "\<forall>r\<in>set rs. length r = sizeof_Record D" and v: "\<forall>r\<in>set rs. valid D r"
    by (auto dest: live_recordsD)
  then have "slots (sizeof_Record D) (concat rs) = rs"
    using sizeof_pos[of D] by (intro slots_concat) auto
  then show ?thesis
    using v by (simp add: live_records_def)
qed

lemma dvd_length_concat:
  "set rs \<subseteq> set (live_records D h) \<Longrightarrow> sizeof_Record D dvd length (concat rs)"
proof -
  assume "set rs \<subseteq> set (live_records D h)"
  then have "\<forall>r\<in>set rs. length r = sizeof_Record D"
    by (auto dest: live_recordsD)
  then have "length (concat rs) = sizeof_Record D * length rs"
    by (rule length_concat_slots)
  then show ?thesis by simp
qed

section \<open>The operations in terms of the live records\<close>

lemma live_None: "files s (dbPath D) = None \<Longrightarrow> live D s = []"
  by (simp add: live_def)

lemma live_Some: "files s (dbPath D) = Some h \<Longrightarrow> live D s = live_records D h"
  by (simp add: live_def)

lemma query_eq:
  "query D (Some k) s =
     (map_option (rec_data D) (find (matches k) (live D s)),
      s\<lparr>calls := calls s @ [FsOpen (dbPath D) ModeR]\<rparr>)"
  by (cases "files s (dbPath D)") (simp_all add: query_def open_r_def live_def query_loop_eq)

lemma count_db_eq:
  "count_db D s = (length (live D s), s\<lparr>calls := calls s @ [FsOpen (dbPath D) ModeR]\<rparr>)"
  by (cases "files s (dbPath D)") (simp_all add: count_db_def open_r_def live_def count_loop_eq)

lemma selectAll_eq:
  "selectAll D callback v s =
     (fold (visit D callback) (live D s) v, s\<lparr>calls := calls s @ [FsOpen (dbPath D) ModeR]\<rparr>)"
  by (cases "files s (dbPath D)")
     (simp_all add: selectAll_def open_r_def live_def selectAll_loop_eq)

lemma query_None: "query D None s = (None, s)"
  by (simp add: query_def)

lemma files_query: "files (snd (query D key s)) = files s"
  by (cases key) (simp_all add: query_eq query_None)

lemma files_exists_db: "files (snd (exists_db D key s)) = files s"
  using files_query[of D key s] by (cases "query D key s") (simp add: exists_db_def)

lemma files_count_db: "files (snd (count_db D s)) = files s"
  by (simp add: count_db_eq)

lemma files_selectAll: "files (snd (selectAll D callback v s)) = files s"
  by (simp add: selectAll_eq)

lemma remove_db_None: "remove_db D None s = (False, s)"
  by (simp add: remove_db_def)

lemma remove_db_no_file:
  "files s (dbPath D) = None \<Longrightarrow>
   remove_db D (Some k) s = (False, s\<lparr>calls := calls s @ [FsOpen (dbPath D) ModeR]\<rparr>)"
  by (simp add: remove_db_def open_r_def)

lemma remove_db_file_eq:
  assumes "files s (dbPath D) = Some h"
  shows "remove_db D (Some k) s =
    (let s2 = s\<lparr>files := (files s)(temp_db \<mapsto> []),
                 calls := calls s @ [FsOpen (dbPath D) ModeR, FsOpen temp_db ModeW]\<rparr>;
         s3 = appended temp_db (concat (filter (\<lambda>r. \<not> matches k r) (live_records D h))) s2
     in if list_ex (matches k) (live_records D h)
        then (True, fs_rename temp_db (dbPath D) (fs_remove (dbPath D) s3))
        else (False, fs_remove temp_db s3))"
proof -
  define s1 where "s1 = s\<lparr>calls := calls s @ [FsOpen (dbPath D) ModeR]\<rparr>"
  define s2 where "s2 = s\<lparr>files := (files s)(temp_db \<mapsto> []),
                 calls := calls s @ [FsOpen (dbPath D) ModeR, FsOpen temp_db ModeW]\<rparr>"
  have r: "open_r (dbPath D) s = (Some h, s1)"
    using assms by (simp add: open_r_def s1_def)
  have o: "open_w temp_db s1 = (Some temp_db, s2)"
    by (simp add: open_w_def s1_def s2_def)
  have t: "files s2 temp_db \<noteq> None"
    by (simp add: s2_def)
  have "remove_db D (Some k) s =
     (case remove_loop D k temp_db h (False, s2) of
        (found, s3) \<Rightarrow>
          if found then (found, fs_rename temp_db (dbPath D) (fs_remove (dbPath D) s3))
          else (found, fs_remove temp_db s3))"
    unfolding remove_db_def by (simp only: option.case r prod.case o)
  also have "\<dots> =
     (let s3 = appended temp_db (concat (filter (\<lambda>r. \<not> matches k r) (live_records D h))) s2
      in if list_ex (matches k) (live_records D h)
         then (True, fs_rename temp_db (dbPath D) (fs_remove (dbPath D) s3))
         else (False, fs_remove temp_db s3))"
    by (simp only: remove_loop_eq[OF t] prod.case Let_def simp_thms split: if_splits) simp
  finally show ?thesis
    by (simp only: s2_def Let_def)
qed

lemma remove_db_found:
  "fst (remove_db D (Some k) s) = list_ex (matches k) (live D s)"
proof (cases "files s (dbPath D)")
  case None
  then show ?thesis by (simp add: remove_db_no_file live_def)
next
  case (Some h)
  then show ?thesis by (simp add: remove_db_file_eq live_def Let_def)
qed

lemma remove_db_file:
  assumes "dbPath D \<noteq> temp_db"
  shows "files (snd (remove_db D (Some k) s)) (dbPath D) =
     (if list_ex (matches k) (live D s)
      then Some (concat (filter (\<lambda>r. \<not> matches k r) (live D s)))
      else files s (dbPath D))"
proof (cases "files s (dbPath D)")
  case None
  then show ?thesis by (simp add: remove_db_no_file live_def)
next
  case (Some h)
  then show ?thesis
    using assms
    by (simp add: remove_db_file_eq live_def Let_def fs_remove_def fs_rename_def appended_def)
qed

lemma filter_none: "\<not> list_ex P xs \<Longrightarrow> filter (\<lambda>r. \<not> P r) xs = xs"
  by (induction xs) auto

lemma live_remove_db:
  assumes "dbPath D \<noteq> temp_db"
  shows "live D (snd (remove_db D (Some k) s)) = filter (\<lambda>r. \<not> matches k r) (live D s)"
proof (cases "list_ex (matches k) (live D s)")
  case True
  then obtain h where h: "files s (dbPath D) = Some h"
    by (cases "files s (dbPath D)") (auto simp: live_def)
  have "live_records D (concat (filter (\<lambda>r. \<not> matches k r) (live_records D h)))
      = filter (\<lambda>r. \<not> matches k r) (live_records D h)"
    by (rule live_records_concat[of _ D h]) simp
  moreover have "files (snd (remove_db D (Some k) s)) (dbPath D) =
      Some (concat (filter (\<lambda>r. \<not> matches k r) (live_records D h)))"
    using True assms h by (simp add: remove_db_file live_Some)
  ultimately show ?thesis
    using h by (simp add: live_def)
next
  case False
  then have "files (snd (remove_db D (Some k) s)) (dbPath D) = files s (dbPath D)"
    using assms by (simp add: remove_db_file)
  then have "live D (snd (remove_db D (Some k) s)) = live D s"
    by (simp add: live_def)
  then show ?thesis
    using False by (simp add: filter_none)
qed

lemma whole_slots_remove_db:
  assumes "dbPath D \<noteq> temp_db" "whole_slots D s"
  shows "whole_slots D (snd (remove_db D (Some k) s))"
proof (cases "list_ex (matches k) (live D s)")
  case True
  then obtain h where h: "files s (dbPath D) = Some h"
    by (cases "files s (dbPath D)") (auto simp: live_def)
  have "sizeof_Record D dvd length (concat (filter (\<lambda>r. \<not> matches k r) (live_records D h)))"
    by (rule dvd_length_concat[of _ D h]) simp
  then show ?thesis
    using True assms h by (simp add: whole_slots_def remove_db_file live_Some)
next
  case False
  then show ?thesis
    using assms by (simp add: whole_slots_def remove_db_file)
qed

lemma insert_db_eq:
  assumes "strlen k < key_size"
  shows "insert_db D (Some k) v s =
     (length (make_record D k v) = sizeof_Record D,
      appended (dbPath D) (make_record D k v)
        (snd (open_a (dbPath D) (snd (remove_db D (Some k) s)))))"
proof -
  obtain removed s1 where r: "remove_db D (Some k) s = (removed, s1)"
    by (cases "remove_db D (Some k) s")
  obtain s2 where o: "open_a (dbPath D) s1 = (Some (dbPath D), s2)"
    by (simp add: open_a_def)
  have w: "file_write (dbPath D) b s2 = (length b, appended (dbPath D) b s2)" for b
    by (simp add: file_write_def appended_def)
  have "\<not> key_size \<le> strlen k"
    using assms by simp
  then show ?thesis
    unfolding insert_db_def
    by (simp only: option.case if_False r prod.case o w snd_conv)
qed

lemma insert_db_ok:
  assumes "strlen k < key_size" "length v = tsize D"
  shows "fst (insert_db D (Some k) v s)"
  using assms by (simp add: insert_db_eq length_make_record)

lemma insert_db_file:
  assumes "strlen k < key_size"
  shows "files (snd (insert_db D (Some k) v s)) (dbPath D) =
     Some ((case files (snd (remove_db D (Some k) s)) (dbPath D) of None \<Rightarrow> [] | Some c \<Rightarrow> c)
           @ make_record D k v)"
proof (cases "files (snd (remove_db D (Some k) s)) (dbPath D)")
  case None
  then show ?thesis
    using assms by (simp add: insert_db_eq appended_def open_a_def)
next
  case (Some c)
  then show ?thesis
    using assms by (simp add: insert_db_eq appended_def open_a_def)
qed

lemma live_insert_db:
  assumes "dbPath D \<noteq> temp_db" "strlen k < key_size" "length v = tsize D" "whole_slots D s"
  shows "live D (snd (insert_db D (Some k) v s)) =
     filter (\<lambda>r. \<not> matches k r) (live D s) @ filter (valid D) [make_record D k v]"
proof -
  define s1 where "s1 = snd (remove_db D (Some k) s)"
  define old where "old = (case files s1 (dbPath D) of None \<Rightarrow> [] | Some c \<Rightarrow> c)"
  have w: "whole_slots D s1"
    using assms by (simp add: s1_def whole_slots_remove_db)
  have dv: "sizeof_Record D dvd length old"
    using w by (cases "files s1 (dbPath D)") (simp_all add: old_def whole_slots_def)
  have "live_records D old = live D s1"
    by (cases "files s1 (dbPath D)") (simp_all add: old_def live_def live_records_Nil)
  then have old: "live_records D old = filter (\<lambda>r. \<not> matches k r) (live D s)"
    using assms by (simp add: s1_def live_remove_db)
  have "files (snd (insert_db D (Some k) v s)) (dbPath D) = Some (old @ make_record D k v)"
    using assms by (simp only: insert_db_file old_def s1_def)
  then have "live D (snd (insert_db D (Some k) v s)) = live_records D (old @ make_record D k v)"
    by (simp add: live_def)
  also have "\<dots> = live_records D old @ live_records D (make_record D k v)"
    using dv by (rule live_records_append)
  finally show ?thesis
    using assms by (simp add: old live_records_one length_make_record)
qed

lemma whole_slots_insert_db:
  assumes "dbPath D \<noteq> temp_db" "strlen k < key_size" "length v = tsize D" "whole_slots D s"
  shows "whole_slots D (snd (insert_db D (Some k) v s))"
proof -
  define s1 where "s1 = snd (remove_db D (Some k) s)"
  define old where "old = (case files s1 (dbPath D) of None \<Rightarrow> [] | Some c \<Rightarrow> c)"
  have w: "whole_slots D s1"
    using assms by (simp add: s1_def whole_slots_remove_db)
  have dv: "sizeof_Record D dvd length old"
    using w by (cases "files s1 (dbPath D)") (simp_all add: old_def whole_slots_def)
  have "files (snd (insert_db D (Some k) v s)) (dbPath D) = Some (old @ make_record D k v)"
    using assms by (simp only: insert_db_file old_def s1_def)
  then show ?thesis
    using dv assms by (simp add: whole_slots_def length_make_record)
qed

lemma insert_db_rejects:
  "key = None \<or> (\<exists>k. key = Some k \<and> key_size \<le> strlen k) \<Longrightarrow> insert_db D key v s = (False, s)"
  by (auto simp: insert_db_def)

lemma matches_make_record:
  "strlen k < key_size \<Longrightarrow> length v = tsize D \<Longrightarrow> matches k' (make_record D k v) = (cstr k = cstr k')"
  by (simp add: matches_def streq_def cstr_rec_key_make_record)

section \<open>Counting and uniqueness\<close>

lemma live_cong: "files s' = files s \<Longrightarrow> live D s' = live D s"
  by (simp add: live_def)

lemma store_inv_cong: "files s' = files s \<Longrightarrow> store_inv D s' = store_inv D s"
  by (simp add: store_inv_def whole_slots_def unique_keys_def live_def)

lemma filter_key_le1:
  "distinct (map f xs) \<Longrightarrow> length (filter (\<lambda>x. f x = c) xs) \<le> 1"
  by (induction xs) (auto simp: filter_empty_conv image_iff)

lemma matches_key: "matches k r = (cstr (rec_key r) = cstr k)"
  by (simp add: matches_def streq_def)

lemma unique_keys_le1: "unique_keys D s \<Longrightarrow> length (filter (matches k) (live D s)) \<le> 1"
  using filter_key_le1[of "\<lambda>r. cstr (rec_key r)" "live D s" "cstr k"]
  by (simp add: unique_keys_def matches_key[abs_def])

lemma list_ex_filter_pos: "list_ex P xs \<Longrightarrow> 1 \<le> length (filter P xs)"
  by (induction xs) auto

lemma length_filter_not:
  "length (filter (\<lambda>r. \<not> P r) xs) + length (filter P xs) = length xs"
  by (induction xs) auto

lemma unique_remove_one:
  assumes "unique_keys D s" "list_ex (matches k) (live D s)"
  shows "Suc (length (filter (\<lambda>r. \<not> matches k r) (live D s))) = length (live D s)"
proof -
  have "length (filter (matches k) (live D s)) = 1"
    using unique_keys_le1[OF assms(1), of k] list_ex_filter_pos[OF assms(2)]
    by (rule le_antisym)
  then show ?thesis
    using length_filter_not[of "matches k" "live D s"] by simp
qed

lemma find_filter_not: "find P (filter (\<lambda>r. \<not> P r) xs) = None"
  by (induction xs) auto

lemma find_append:
  "find P (xs @ ys) = (case find P xs of None \<Rightarrow> find P ys | Some x \<Rightarrow> Some x)"
  by (induction xs) auto

lemma insert_then_query:
  assumes "dbPath D \<noteq> temp_db" "tail_pad D = 0" "strlen k < key_size" "length v = tsize D"
    "whole_slots D s"
  shows "fst (insert_db D (Some k) v s) \<and>
         fst (query D (Some k) (snd (insert_db D (Some k) v s))) = Some v"
proof -
  have l: "live D (snd (insert_db D (Some k) v s)) =
      filter (\<lambda>r. \<not> matches k r) (live D s) @ [make_record D k v]"
    using assms by (simp add: live_insert_db valid_make_record)
  have m: "matches k (make_record D k v)"
    using assms by (simp add: matches_make_record)
  show ?thesis
    using assms m
    by (simp add: insert_db_ok query_eq l find_append find_filter_not rec_data_make_record)
qed

lemma store_inv_None: "files s (dbPath D) = None \<Longrightarrow> store_inv D s"
  by (simp add: store_inv_def whole_slots_def unique_keys_def live_def)

lemma store_inv_clear: "store_inv D (clear D s)"
  by (rule store_inv_None) (simp add: clear_def fs_remove_def)

lemma store_inv_remove_db:
  assumes "dbPath D \<noteq> temp_db" "store_inv D s"
  shows "store_inv D (snd (remove_db D key s))"
proof (cases key)
  case None
  then show ?thesis using assms by (simp add: remove_db_None)
next
  case (Some k)
  then show ?thesis
    using assms
    by (simp add: store_inv_def whole_slots_remove_db unique_keys_def live_remove_db
        distinct_map_filter)
qed

lemma store_inv_insert_db:
  assumes "dbPath D \<noteq> temp_db" "store_inv D s" "length v = tsize D"
  shows "store_inv D (snd (insert_db D key v s))"
proof (cases "key = None \<or> (\<exists>k. key = Some k \<and> key_size \<le> strlen k)")
  case True
  then show ?thesis
    using assms by (simp add: insert_db_rejects)
next
  case False
  then obtain k where k: "key = Some k" "strlen k < key_size"
    by (cases key) auto
  have w: "whole_slots D s" and u: "unique_keys D s"
    using assms(2) by (simp_all add: store_inv_def)
  have l: "live D (snd (insert_db D (Some k) v s)) =
      filter (\<lambda>r. \<not> matches k r) (live D s) @ filter (valid D) [make_record D k v]"
    using assms k w by (simp add: live_insert_db)
  have d: "distinct (map (\<lambda>r. cstr (rec_key r)) (filter (\<lambda>r. \<not> matches k r) (live D s)))"
    using u by (simp add: unique_keys_def distinct_map_filter)
  have n: "cstr (rec_key (make_record D k v)) \<notin>
       (\<lambda>r. cstr (rec_key r)) ` set (filter (\<lambda>r. \<not> matches k r) (live D s))"
    using assms(3) k by (auto simp: matches_key cstr_rec_key_make_record)
  have "unique_keys D (snd (insert_db D (Some k) v s))"
    using d n by (simp add: unique_keys_def l)
  then show ?thesis
    using assms k w by (simp add: store_inv_def whole_slots_insert_db)
qed

lemma store_inv_step:
  assumes "dbPath D \<noteq> temp_db" "store_inv D (store t)" "typed D c"
  shows "store_inv D (store (step D c t))"
proof (cases c)
  case (Insert key v)
  then show ?thesis using assms by (simp add: Let_def store_inv_insert_db)
next
  case (Remove key)
  then show ?thesis using assms by (simp add: Let_def store_inv_remove_db)
next
  case (Query key)
  then show ?thesis using assms by (simp add: store_inv_cong[OF files_query])
next
  case (Exists key)
  then show ?thesis using assms by (simp add: store_inv_cong[OF files_exists_db])
next
  case Count
  then show ?thesis using assms by (simp add: store_inv_cong[OF files_count_db])
next
  case SelectAll
  then show ?thesis using assms by (simp add: store_inv_cong[OF files_selectAll])
next
  case Clear
  then show ?thesis by (simp add: store_inv_clear)
qed

lemma reachable_store_inv:
  assumes "dbPath D \<noteq> temp_db"
  shows "reachable D s \<Longrightarrow> store_inv D s"
proof (induction rule: reachable.induct)
  case (unused s)
  then show ?case by (rule store_inv_None)
next
  case (call s c)
  then show ?case
    using assms store_inv_step[of D "fresh s" c] by (simp add: fresh_def)
qed

lemma store_step_Insert: "store (step D (Insert key v) (fresh s)) = snd (insert_db D key v s)"
  by (simp add: fresh_def Let_def)

lemma reachable_store_ab: "reachable db_u8 store_ab"
proof -
  have "reachable db_u8 no_files"
    by (rule reachable.unused) (simp add: no_files_def)
  then have "reachable db_u8 (store (step db_u8 (Insert (Some key_a) [1]) (fresh no_files)))"
    by (rule reachable.call) (simp add: db_u8_def)
  then have "reachable db_u8 (store (step db_u8 (Insert (Some key_b) [2])
      (fresh (store (step db_u8 (Insert (Some key_a) [1]) (fresh no_files))))))"
    by (rule reachable.call) (simp add: db_u8_def)
  then show ?thesis
    by (simp only: store_step_Insert store_ab_def)
qed

section \<open>Properties of the operations\<close>

text \<open>
  Claim C2, as the code has it. When every comparison of the scan ends inside the record
  buffer and the store holds a live record for the key, \<^verbatim>\<open>remove(key)\<close> returns true, a
  \<^verbatim>\<open>query(key)\<close> that follows returns false, and \<^verbatim>\<open>count()\<close> drops by the number of
  live records with that key: by exactly one where the live keys are unique, as they are
  in every reachable state. The database path is not the path of the temporary file.
\<close>

theorem remove_drops_records_of_key:
  assumes "dbPath D \<noteq> temp_db" and "reads_in_record D (Some k) s" and "has_live D (Some k) s"
  shows "fst (remove_db D (Some k) s) \<and>
         fst (query D (Some k) (snd (remove_db D (Some k) s))) = None \<and>
         fst (count_db D (snd (remove_db D (Some k) s))) + length (filter (matches k) (live D s))
           = fst (count_db D s) \<and>
         (unique_keys D s \<longrightarrow>
            fst (count_db D (snd (remove_db D (Some k) s))) + 1 = fst (count_db D s))"
proof -
  have ex: "list_ex (matches k) (live D s)"
    using assms(3) by (simp add: has_live_def)
  have l: "live D (snd (remove_db D (Some k) s)) = filter (\<lambda>r. \<not> matches k r) (live D s)"
    using assms(1) by (rule live_remove_db)
  have c: "fst (count_db D (snd (remove_db D (Some k) s))) + length (filter (matches k) (live D s))
           = fst (count_db D s)"
    by (simp add: count_db_eq l length_filter_not)
  have u: "fst (count_db D (snd (remove_db D (Some k) s))) + 1 = fst (count_db D s)"
    if "unique_keys D s"
    using that ex by (simp add: count_db_eq l unique_remove_one)
  show ?thesis
    using ex c u by (simp add: remove_db_found query_eq l find_filter_not)
qed

theorem remove_drops_records_of_key_witness:
  "dbPath db_u8 \<noteq> temp_db \<and> reads_in_record db_u8 (Some key_a) store_ab \<and>
   has_live db_u8 (Some key_a) store_ab \<and> unique_keys db_u8 store_ab \<and>
   fst (remove_db db_u8 (Some key_a) store_ab) \<and>
   fst (query db_u8 (Some key_a) (snd (remove_db db_u8 (Some key_a) store_ab))) = None \<and>
   fst (count_db db_u8 (snd (remove_db db_u8 (Some key_a) store_ab)))
     + length (filter (matches key_a) (live db_u8 store_ab)) = fst (count_db db_u8 store_ab) \<and>
   fst (count_db db_u8 (snd (remove_db db_u8 (Some key_a) store_ab))) + 1
     = fst (count_db db_u8 store_ab)"
proof -
  have h1: "dbPath db_u8 \<noteq> temp_db" by code_simp
  have h2: "reads_in_record db_u8 (Some key_a) store_ab" by code_simp
  have h3: "has_live db_u8 (Some key_a) store_ab" by code_simp
  have h4: "unique_keys db_u8 store_ab" by code_simp
  from remove_drops_records_of_key[OF h1 h2 h3] h1 h2 h3 h4 show ?thesis by blast
qed

text \<open>
  The claim as it is stated, for every store state: a file with two live records of one
  key, where the count drops from 3 to 1.
\<close>

theorem remove_count_counterexample:
  "has_live db_u8 (Some key_a) store_aba \<and>
   fst (count_db db_u8 store_aba) = 3 \<and>
   fst (count_db db_u8 (snd (remove_db db_u8 (Some key_a) store_aba))) = 1 \<and>
   fst (count_db db_u8 (snd (remove_db db_u8 (Some key_a) store_aba)))
     \<noteq> fst (count_db db_u8 store_aba) - 1"
  by code_simp

text \<open>
  Claim C5. In every state that the operations reach from a filesystem without the
  database file, no key has more than one live record; and \<^verbatim>\<open>insert\<close>, \<^verbatim>\<open>remove\<close>
  and \<^verbatim>\<open>clear\<close> each preserve the invariant (at most one live record per key, in a file
  of whole slots).
\<close>

theorem one_live_record_per_key:
  assumes "dbPath D \<noteq> temp_db"
  shows "(reachable D s \<longrightarrow> length (filter (matches k) (live D s)) \<le> 1) \<and>
         (store_inv D s \<and> length v = tsize D \<longrightarrow>
            store_inv D (snd (insert_db D key v s)) \<and>
            store_inv D (snd (remove_db D key s)) \<and>
            store_inv D (clear D s))"
proof (intro conjI impI)
  assume "reachable D s"
  then have "store_inv D s"
    by (rule reachable_store_inv[OF assms])
  then have "unique_keys D s"
    by (simp add: store_inv_def)
  then show "length (filter (matches k) (live D s)) \<le> 1"
    by (rule unique_keys_le1)
next
  assume a: "store_inv D s \<and> length v = tsize D"
  then show "store_inv D (snd (insert_db D key v s))"
    using assms by (simp add: store_inv_insert_db)
  from a show "store_inv D (snd (remove_db D key s))"
    using assms by (simp add: store_inv_remove_db)
  show "store_inv D (clear D s)"
    by (rule store_inv_clear)
qed

theorem one_live_record_per_key_witness:
  "dbPath db_u8 \<noteq> temp_db \<and> reachable db_u8 store_ab \<and>
   length (filter (matches key_a) (live db_u8 store_ab)) \<le> 1 \<and>
   store_inv db_u8 store_ab \<and> length [3 :: u8] = tsize db_u8 \<and>
   store_inv db_u8 (snd (insert_db db_u8 (Some key_a) [3] store_ab)) \<and>
   store_inv db_u8 (snd (remove_db db_u8 (Some key_a) store_ab)) \<and>
   store_inv db_u8 (clear db_u8 store_ab)"
proof -
  have h1: "dbPath db_u8 \<noteq> temp_db" by code_simp
  have h2: "store_inv db_u8 store_ab" by code_simp
  have h3: "length [3 :: u8] = tsize db_u8" by code_simp
  from one_live_record_per_key[OF h1, of store_ab key_a "[3]" "Some key_a"]
    reachable_store_ab h1 h2 h3
  show ?thesis by blast
qed

text \<open>
  Claim C6. When every comparison of the scan ends inside the record buffer and no live
  record has the key (or the key is null), \<^verbatim>\<open>remove(key)\<close> returns false and leaves the
  database file, and every file other than the temporary one, byte for byte as it was.
\<close>

theorem remove_absent_key_unchanged:
  assumes "dbPath D \<noteq> temp_db" and "reads_in_record D key s" and "\<not> has_live D key s"
  shows "\<not> fst (remove_db D key s) \<and>
         files (snd (remove_db D key s)) (dbPath D) = files s (dbPath D) \<and>
         (\<forall>p. p \<noteq> temp_db \<longrightarrow> files (snd (remove_db D key s)) p = files s p)"
proof (cases key)
  case None
  then show ?thesis by (simp add: remove_db_None)
next
  case (Some k)
  with assms(3) have nf: "\<not> list_ex (matches k) (live D s)"
    by (simp add: has_live_def)
  have other: "files (snd (remove_db D (Some k) s)) p = files s p" if "p \<noteq> temp_db" for p
  proof (cases "files s (dbPath D)")
    case None
    then show ?thesis by (simp add: remove_db_no_file)
  next
    case (Some h)
    then show ?thesis
      using nf that
      by (simp add: remove_db_file_eq live_Some Let_def fs_remove_def appended_def)
  qed
  show ?thesis
    using nf assms(1) other by (simp add: Some remove_db_found)
qed

theorem remove_absent_key_unchanged_witness:
  "dbPath db_u8 \<noteq> temp_db \<and> reads_in_record db_u8 (Some [0x63]) store_ab \<and>
   \<not> has_live db_u8 (Some [0x63]) store_ab \<and>
   \<not> fst (remove_db db_u8 (Some [0x63]) store_ab) \<and>
   files (snd (remove_db db_u8 (Some [0x63]) store_ab)) (dbPath db_u8) = files store_ab (dbPath db_u8)"
proof -
  have h1: "dbPath db_u8 \<noteq> temp_db" by code_simp
  have h2: "reads_in_record db_u8 (Some [0x63]) store_ab" by code_simp
  have h3: "\<not> has_live db_u8 (Some [0x63]) store_ab" by code_simp
  from remove_absent_key_unchanged[OF h1 h2 h3] h1 h2 h3 show ?thesis by blast
qed

text \<open>
  Claim C7. \<^verbatim>\<open>insert\<close> with a null key, or with a key of 32 bytes or more, returns false
  and leaves the filesystem as it was, without a single call on it.
\<close>

theorem insert_rejects_invalid_key:
  "insert_db D None v s = (False, s) \<and>
   (key_size \<le> strlen k \<longrightarrow> insert_db D (Some k) v s = (False, s))"
  by (simp add: insert_db_def)

theorem insert_rejects_invalid_key_witness:
  "key_size \<le> strlen (replicate 32 0x61) \<and>
   insert_db db_u8 (Some (replicate 32 0x61)) [1] store_ab = (False, store_ab)"
proof -
  have h: "key_size \<le> strlen (replicate 32 0x61)" by code_simp
  from insert_rejects_invalid_key[of db_u8 "[1]" store_ab "replicate 32 0x61"] h
  show ?thesis by blast
qed

text \<open>
  Claim C10. \<^verbatim>\<open>query\<close> and \<^verbatim>\<open>remove\<close> with a null key return false and leave the
  filesystem as it was, without a single call on it.
\<close>

theorem null_key_no_io:
  "query D None s = (None, s) \<and> remove_db D None s = (False, s)"
  by (simp add: query_def remove_db_def)

section \<open>Sequences of calls and the count\<close>

lemma balanced_insert:
  assumes "dbPath D \<noteq> temp_db" "tail_pad D = 0" "length v = tsize D" "balanced D t"
  shows "balanced D (step D (Insert key v) t)"
proof (cases "key = None \<or> (\<exists>k. key = Some k \<and> key_size \<le> strlen k)")
  case True
  then have "insert_db D key v (store t) = (False, store t)"
    by (rule insert_db_rejects)
  then show ?thesis
    using assms(4) by (simp add: balanced_def)
next
  case False
  then obtain k where k: "key = Some k" "strlen k < key_size"
    by (cases key) auto
  let ?s = "store t"
  have inv: "store_inv D ?s" and bal: "length (live D ?s) + removes_ok t = inserts_fresh t"
    using assms(4) by (simp_all add: balanced_def)
  have w: "whole_slots D ?s" and u: "unique_keys D ?s"
    using inv by (simp_all add: store_inv_def)
  have ok: "fst (insert_db D (Some k) v ?s)"
    using k assms by (simp add: insert_db_ok)
  have l: "live D (snd (insert_db D (Some k) v ?s)) =
      filter (\<lambda>r. \<not> matches k r) (live D ?s) @ [make_record D k v]"
    using assms k w by (simp add: live_insert_db valid_make_record)
  have inv': "store_inv D (snd (insert_db D (Some k) v ?s))"
    using assms inv by (simp add: store_inv_insert_db)
  show ?thesis
  proof (cases "list_ex (matches k) (live D ?s)")
    case True
    then have "Suc (length (filter (\<lambda>r. \<not> matches k r) (live D ?s))) = length (live D ?s)"
      using u by (simp add: unique_remove_one)
    then show ?thesis
      using True ok inv' bal by (simp add: balanced_def k Let_def l has_live_def)
  next
    case False
    then have "filter (\<lambda>r. \<not> matches k r) (live D ?s) = live D ?s"
      by (rule filter_none)
    then show ?thesis
      using False ok inv' bal by (simp add: balanced_def k Let_def l has_live_def)
  qed
qed

lemma balanced_remove:
  assumes "dbPath D \<noteq> temp_db" "balanced D t"
  shows "balanced D (step D (Remove key) t)"
proof (cases key)
  case None
  then show ?thesis
    using assms(2) by (simp add: balanced_def remove_db_None)
next
  case (Some k)
  let ?s = "store t"
  have inv: "store_inv D ?s" and bal: "length (live D ?s) + removes_ok t = inserts_fresh t"
    using assms(2) by (simp_all add: balanced_def)
  have u: "unique_keys D ?s"
    using inv by (simp add: store_inv_def)
  have l: "live D (snd (remove_db D (Some k) ?s)) = filter (\<lambda>r. \<not> matches k r) (live D ?s)"
    using assms(1) by (rule live_remove_db)
  have inv': "store_inv D (snd (remove_db D (Some k) ?s))"
    using assms(1) inv by (rule store_inv_remove_db)
  show ?thesis
  proof (cases "list_ex (matches k) (live D ?s)")
    case True
    then have "Suc (length (filter (\<lambda>r. \<not> matches k r) (live D ?s))) = length (live D ?s)"
      using u by (simp add: unique_remove_one)
    then show ?thesis
      using True inv' bal by (simp add: balanced_def Some Let_def l remove_db_found)
  next
    case False
    then have "filter (\<lambda>r. \<not> matches k r) (live D ?s) = live D ?s"
      by (rule filter_none)
    then show ?thesis
      using False inv' bal by (simp add: balanced_def Some Let_def l remove_db_found)
  qed
qed

lemma balanced_step:
  assumes "dbPath D \<noteq> temp_db" "tail_pad D = 0" "typed D c" "balanced D t"
  shows "balanced D (step D c t)"
proof (cases c)
  case (Insert key v)
  with assms(3) have "length v = tsize D" by simp
  with assms have "balanced D (step D (Insert key v) t)"
    by (intro balanced_insert)
  then show ?thesis by (simp only: Insert)
next
  case (Remove key)
  from assms(1,4) have "balanced D (step D (Remove key) t)"
    by (rule balanced_remove)
  then show ?thesis by (simp only: Remove)
next
  case (Query key)
  then show ?thesis
    using assms(4)
    by (simp add: balanced_def store_inv_cong[OF files_query] live_cong[OF files_query])
next
  case (Exists key)
  then show ?thesis
    using assms(4)
    by (simp add: balanced_def store_inv_cong[OF files_exists_db] live_cong[OF files_exists_db])
next
  case Count
  then show ?thesis
    using assms(4)
    by (simp add: balanced_def store_inv_cong[OF files_count_db] live_cong[OF files_count_db])
next
  case SelectAll
  then show ?thesis
    using assms(4)
    by (simp add: balanced_def store_inv_cong[OF files_selectAll] live_cong[OF files_selectAll])
next
  case Clear
  have "files (clear D (store t)) (dbPath D) = None"
    by (simp add: clear_def fs_remove_def)
  then show ?thesis
    by (simp add: Clear balanced_def store_inv_None live_None)
qed

lemma balanced_run:
  assumes "dbPath D \<noteq> temp_db" "tail_pad D = 0"
  shows "\<forall>c\<in>set ops. typed D c \<Longrightarrow> balanced D t \<Longrightarrow> balanced D (run D ops t)"
proof (induction ops arbitrary: t)
  case Nil
  then show ?case by (simp add: run_def)
next
  case (Cons c ops)
  from Cons.prems have "balanced D (step D c t)"
    using assms by (simp add: balanced_step)
  with Cons show ?case by (simp add: run_def)
qed

text \<open>
  Claim C8, as the code has it. From a filesystem without the database file, after any
  sequence of \<^verbatim>\<open>insert\<close>, \<^verbatim>\<open>remove\<close>, \<^verbatim>\<open>query\<close>, \<^verbatim>\<open>exists\<close>, \<^verbatim>\<open>count\<close>,
  \<^verbatim>\<open>selectAll\<close> and \<^verbatim>\<open>clear\<close> calls, \<^verbatim>\<open>count()\<close> is the number of inserts that
  returned true and whose key had no live record when they were called, minus the number
  of removes that returned true, both counted since the last \<^verbatim>\<open>clear()\<close>. The record
  has no padding after the checksum byte, and the database path is not the path of the
  temporary file.
\<close>

theorem count_is_fresh_inserts_minus_removes:
  assumes "dbPath D \<noteq> temp_db" and "tail_pad D = 0"
    and "files s (dbPath D) = None" and "list_all (typed D) ops"
  shows "fst (count_db D (store (run D ops (fresh s)))) + removes_ok (run D ops (fresh s))
           = inserts_fresh (run D ops (fresh s))"
proof -
  have "balanced D (fresh s)"
    using assms(3) by (simp add: balanced_def fresh_def store_inv_None live_None)
  moreover have "\<forall>c\<in>set ops. typed D c"
    using assms(4) by (simp add: list_all_iff)
  ultimately have "balanced D (run D ops (fresh s))"
    using assms(1,2) by (simp add: balanced_run)
  then show ?thesis
    by (simp add: balanced_def count_db_eq)
qed

theorem count_is_fresh_inserts_minus_removes_witness:
  "dbPath db_u8 \<noteq> temp_db \<and> tail_pad db_u8 = 0 \<and> files no_files (dbPath db_u8) = None \<and>
   list_all (typed db_u8) [Insert (Some key_a) [1], Insert (Some key_b) [2],
      Insert (Some key_a) [3], Remove (Some key_b), Count] \<and>
   fst (count_db db_u8 (store (run db_u8
         [Insert (Some key_a) [1], Insert (Some key_b) [2], Insert (Some key_a) [3],
          Remove (Some key_b), Count] (fresh no_files))))
     + removes_ok (run db_u8
         [Insert (Some key_a) [1], Insert (Some key_b) [2], Insert (Some key_a) [3],
          Remove (Some key_b), Count] (fresh no_files))
     = inserts_fresh (run db_u8
         [Insert (Some key_a) [1], Insert (Some key_b) [2], Insert (Some key_a) [3],
          Remove (Some key_b), Count] (fresh no_files))"
proof -
  have h1: "dbPath db_u8 \<noteq> temp_db" by code_simp
  have h2: "tail_pad db_u8 = 0" by code_simp
  have h3: "files no_files (dbPath db_u8) = None" by code_simp
  have h4: "list_all (typed db_u8) [Insert (Some key_a) [1], Insert (Some key_b) [2],
      Insert (Some key_a) [3], Remove (Some key_b), Count]"
    by (simp add: db_u8_def)
  from count_is_fresh_inserts_minus_removes[OF h1 h2 h3 h4] h1 h2 h3 h4
  show ?thesis by blast
qed

text \<open>
  The claim as it is stated counts every insert that returned true. An insert on a key
  that is live replaces the record, so two inserts of one key leave one record.
\<close>

theorem count_is_inserts_minus_removes_counterexample:
  "fst (count_db db_u8 (store (run db_u8 [Insert (Some key_a) [1], Insert (Some key_a) [3]]
         (fresh no_files))))
   \<noteq> inserts_ok (run db_u8 [Insert (Some key_a) [1], Insert (Some key_a) [3]] (fresh no_files))
     - removes_ok (run db_u8 [Insert (Some key_a) [1], Insert (Some key_a) [3]] (fresh no_files))"
  by code_simp

section \<open>Insert, then query\<close>

text \<open>
  Claim C1 at \<^verbatim>\<open>RecordDB<uint32_t>\<close> on an empty filesystem: \<^verbatim>\<open>insert("a", 1)\<close> returns
  true, and the \<^verbatim>\<open>query("a")\<close> that follows returns false. \<open>computeCRC\<close> reads the
  first \<^verbatim>\<open>sizeof(Record) - 1\<close> bytes, which here are 39 of 40 and include the checksum
  byte at offset 36: zero when \<^verbatim>\<open>insert\<close> computes the checksum, the checksum itself
  when \<^verbatim>\<open>query\<close> checks it. For a record without padding the property holds (lemma
  \<open>insert_then_query\<close>).
\<close>

theorem insert_then_query_fails_with_padding:
  "fst (insert_db db_u32 (Some key_a) [1, 0, 0, 0] no_files) \<and>
   fst (query db_u32 (Some key_a) (snd (insert_db db_u32 (Some key_a) [1, 0, 0, 0] no_files)))
     = None"
  by code_simp

section \<open>Iteration\<close>

lemma fold_log_visit: "fold (visit D log_visit) xs acc = acc @ map (entry D) xs"
  by (induction xs arbitrary: acc) (simp_all add: visit_def log_visit_def entry_def)

text \<open>
  \<^verbatim>\<open>selectAll\<close> calls the callback on the live records of the file, each once, in file
  order; it leaves every file as it was, so that a second call visits the same sequence.
\<close>

lemma selectAll_visits:
  "fst (selectAll D callback v s) = fold (visit D callback) (live D s) v \<and>
   fst (selectAll D log_visit [] s) = map (entry D) (live D s) \<and>
   files (snd (selectAll D callback v s)) = files s \<and>
   fst (selectAll D callback v (snd (selectAll D callback' v' s))) = fst (selectAll D callback v s)"
proof (intro conjI)
  show "fst (selectAll D callback v s) = fold (visit D callback) (live D s) v"
    by (simp add: selectAll_eq)
  show "fst (selectAll D log_visit [] s) = map (entry D) (live D s)"
    by (simp add: selectAll_eq fold_log_visit)
  show "files (snd (selectAll D callback v s)) = files s"
    by (rule files_selectAll)
  have "live D (snd (selectAll D callback' v' s)) = live D s"
    by (rule live_cong) (rule files_selectAll)
  then show "fst (selectAll D callback v (snd (selectAll D callback' v' s)))
      = fst (selectAll D callback v s)"
    by (simp add: selectAll_eq[of D callback])
qed

text \<open>
  In a record without padding, file order is insertion order with a re-inserted key
  moved to the end: after an insert the callback sees the former sequence without the
  inserted key, and then the inserted key with its value.
\<close>

lemma selectAll_after_insert:
  assumes "dbPath D \<noteq> temp_db" "tail_pad D = 0" "strlen k < key_size" "length d = tsize D"
    "whole_slots D s"
  shows "fst (selectAll D log_visit [] (snd (insert_db D (Some k) d s))) =
     filter (\<lambda>e. fst e \<noteq> cstr k) (fst (selectAll D log_visit [] s)) @ [(cstr k, d)]"
proof -
  have l: "live D (snd (insert_db D (Some k) d s)) =
      filter (\<lambda>r. \<not> matches k r) (live D s) @ [make_record D k d]"
    using assms by (simp add: live_insert_db valid_make_record)
  have e: "entry D (make_record D k d) = (cstr k, d)"
    using assms by (simp add: entry_def cstr_rec_key_make_record rec_data_make_record)
  have f: "filter (\<lambda>e. fst e \<noteq> cstr k) (map (entry D) xs)
      = map (entry D) (filter (\<lambda>r. \<not> matches k r) xs)" for xs
    by (induction xs) (simp_all add: entry_def matches_key)
  show ?thesis
    by (simp only: selectAll_eq fst_conv fold_log_visit l) (simp add: e f)
qed

text \<open>
  Claim C9 at \<^verbatim>\<open>RecordDB<uint32_t>\<close>. After \<^verbatim>\<open>insert("a", 131)\<close> and
  \<^verbatim>\<open>insert("b", 143)\<close>, whose records happen to have the checksum 0 and pass the check,
  \<^verbatim>\<open>selectAll\<close> visits a and b. Then \<^verbatim>\<open>insert("a", 1)\<close> returns true, and \<^verbatim>\<open>selectAll\<close>
  visits b only: the re-inserted key is not moved to the end, it is not visited at all,
  since the record written for it fails the check of \<open>computeCRC\<close> over a window that
  includes the checksum byte.
\<close>

theorem reinserted_key_not_visited:
  "fst (selectAll db_u32 log_visit [] store_u32_ab)
     = [(key_a, [131, 0, 0, 0]), (key_b, [143, 0, 0, 0])] \<and>
   fst (insert_db db_u32 (Some key_a) [1, 0, 0, 0] store_u32_ab) \<and>
   fst (selectAll db_u32 log_visit [] (snd (insert_db db_u32 (Some key_a) [1, 0, 0, 0] store_u32_ab)))
     = [(key_b, [143, 0, 0, 0])]"
  by code_simp

section \<open>Corruption\<close>

lemma flipped_not_valid:
  assumes "length r = sizeof_Record D" "valid D r" "j < sizeof_Record D - 1" "j \<noteq> crc_off D"
    "b \<noteq> r ! j"
  shows "\<not> valid D (r[j := b])"
proof -
  let ?n = "sizeof_Record D - 1"
  have j: "j < ?n" "j \<noteq> crc_off D"
    using assms(3,4) by simp_all
  have jl: "j < length (take ?n r)"
    using j assms(1) by simp
  have "take ?n r ! j = r ! j"
    using j by simp
  then have ne: "fold crc_byte ((take ?n r)[j := b]) 0 \<noteq> fold crc_byte (take ?n r) 0"
    using assms(5) jl by (intro fold_crc_update) simp_all
  have "computeCRC D (r[j := b]) = fold crc_byte ((take ?n r)[j := b]) 0"
    using assms(1) by (simp add: computeCRC_fold take_update_swap)
  moreover have "computeCRC D r = fold crc_byte (take ?n r) 0"
    using assms(1) by (simp add: computeCRC_fold)
  moreover have "rec_crc D (r[j := b]) = rec_crc D r"
    using j by (simp add: rec_crc_def)
  ultimately show ?thesis
    using ne assms(2) by (simp add: valid_def)
qed

lemma live_with_file: "live D (with_file D h s) = live_records D h"
  by (simp add: live_def with_file_def)

lemma live_records_three:
  assumes "sizeof_Record D dvd length pre" "length r = sizeof_Record D"
  shows "live_records D (pre @ r @ post) =
    live_records D pre @ filter (valid D) [r] @ live_records D post"
proof -
  have "live_records D (pre @ r @ post) = live_records D pre @ live_records D (r @ post)"
    using assms(1) by (rule live_records_append)
  also have "live_records D (r @ post) = live_records D r @ live_records D post"
    using assms(2) by (intro live_records_append) simp
  finally show ?thesis
    using assms(2) by (simp add: live_records_one)
qed

lemma fst_query_live: "live D s' = live D s \<Longrightarrow> fst (query D key s') = fst (query D key s)"
  by (cases key) (simp_all add: query_eq query_None)

text \<open>
  Changing one byte inside the window of \<open>computeCRC\<close>, other than the checksum byte, of a
  live record makes \<^verbatim>\<open>query\<close>, \<^verbatim>\<open>count\<close> and \<^verbatim>\<open>selectAll\<close> answer from the other
  records alone, which keep their keys and values. In a record without padding these are
  all the bytes of the key and of the payload.
\<close>

lemma flipped_byte_hides_record:
  assumes "files s (dbPath D) = Some (pre @ r @ post)"
    and "sizeof_Record D dvd length pre" and "length r = sizeof_Record D" and "valid D r"
    and "j < sizeof_Record D - 1" and "j \<noteq> crc_off D" and "b \<noteq> r ! j"
  shows "fst (query D (Some k) (with_file D (pre @ r[j := b] @ post) s))
           = map_option (rec_data D)
               (find (matches k) (live_records D pre @ live_records D post)) \<and>
         fst (query D (Some k) s)
           = map_option (rec_data D)
               (find (matches k) (live_records D pre @ r # live_records D post)) \<and>
         fst (count_db D (with_file D (pre @ r[j := b] @ post) s))
           = length (live_records D pre) + length (live_records D post) \<and>
         fst (count_db D s) = Suc (length (live_records D pre) + length (live_records D post)) \<and>
         fst (selectAll D log_visit [] s)
           = map (entry D) (live_records D pre) @ entry D r # map (entry D) (live_records D post) \<and>
         fst (selectAll D log_visit [] (with_file D (pre @ r[j := b] @ post) s))
           = map (entry D) (live_records D pre) @ map (entry D) (live_records D post)"
proof -
  let ?bad = "with_file D (pre @ r[j := b] @ post) s"
  have nv: "\<not> valid D (r[j := b])"
    using assms(3-7) by (rule flipped_not_valid)
  have l0: "live D s = live_records D pre @ r # live_records D post"
    using assms(1-4) by (simp add: live_Some live_records_three)
  have l1: "live D ?bad = live_records D pre @ live_records D post"
    using assms(2,3) nv by (simp add: live_with_file live_records_three)
  have v0: "fst (selectAll D log_visit [] s)
      = map (entry D) (live_records D pre) @ entry D r # map (entry D) (live_records D post)"
    by (simp only: selectAll_eq fst_conv fold_log_visit l0) simp
  have v1: "fst (selectAll D log_visit [] ?bad)
      = map (entry D) (live_records D pre) @ map (entry D) (live_records D post)"
    by (simp only: selectAll_eq fst_conv fold_log_visit l1) simp
  show ?thesis
    using v0 v1 by (simp add: count_db_eq query_eq l0 l1)
qed

text \<open>
  Claim C3 at \<^verbatim>\<open>RecordDB<uint32_t>\<close>, on the file that \<^verbatim>\<open>insert("a", 131)\<close> leaves: one
  record of 40 bytes with the checksum byte at offset 36, which happens to be 0, so that
  the record passes the check. Changing byte 39, the last padding byte of the slot and
  not the checksum byte, leaves the record visible to \<^verbatim>\<open>query\<close>, \<^verbatim>\<open>count\<close> and
  \<^verbatim>\<open>selectAll\<close>: the window of \<open>computeCRC\<close> ends before it.
\<close>

theorem padding_byte_change_undetected:
  "files store_u32_a (dbPath db_u32) = Some (make_record db_u32 key_a [131, 0, 0, 0]) \<and>
   valid db_u32 (make_record db_u32 key_a [131, 0, 0, 0]) \<and>
   sizeof_Record db_u32 = 40 \<and> crc_off db_u32 = 36 \<and>
   make_record db_u32 key_a [131, 0, 0, 0] ! 39 \<noteq> 1 \<and>
   fst (query db_u32 (Some key_a)
     (with_file db_u32 ((make_record db_u32 key_a [131, 0, 0, 0])[39 := 1]) store_u32_a))
     = Some [131, 0, 0, 0] \<and>
   fst (count_db db_u32
     (with_file db_u32 ((make_record db_u32 key_a [131, 0, 0, 0])[39 := 1]) store_u32_a)) = 1 \<and>
   fst (selectAll db_u32 log_visit []
     (with_file db_u32 ((make_record db_u32 key_a [131, 0, 0, 0])[39 := 1]) store_u32_a))
     = [(key_a, [131, 0, 0, 0])]"
  by code_simp

end
